theory Spec2Isabelle
  imports Main "HOL-Library.Char_ord" "HOL-Library.List_Lexorder" "HOL-Library.AList"
    "HOL-Library.Multiset"
begin

section \<open>Characters and strings\<close>

text \<open>
  The program is Python 3 and works on \<^verbatim>\<open>str\<close> values.  A character is modelled by
  the 8-bit type \<^typ>\<open>char\<close>, read as the code points 0 to 255, and a string by
  \<^typ>\<open>string\<close>.  On that range the character classes below are the ones Python uses:
  \<^verbatim>\<open>str.isspace\<close> (which decides \<^verbatim>\<open>str.strip()\<close> and the regular
  expression class \<^verbatim>\<open>\s\<close>), the decimal digits of \<^verbatim>\<open>\d\<close>, and the explicit
  class \<^verbatim>\<open>[A-Za-z]\<close>.  Strings are ordered as Python orders them: lexicographically
  by code point, a proper prefix first.
\<close>

definition code_point :: "char \<Rightarrow> nat" where
  "code_point c = of_char c"

definition is_space :: "char \<Rightarrow> bool" where
  "is_space c =
     (let n = code_point c
      in (9 \<le> n \<and> n \<le> 13) \<or> (28 \<le> n \<and> n \<le> 32) \<or> n = 133 \<or> n = 160)"

definition is_digit :: "char \<Rightarrow> bool" where
  "is_digit c = (let n = code_point c in 48 \<le> n \<and> n \<le> 57)"

definition is_alpha :: "char \<Rightarrow> bool" where
  "is_alpha c = (let n = code_point c in (65 \<le> n \<and> n \<le> 90) \<or> (97 \<le> n \<and> n \<le> 122))"

definition newline :: char where
  "newline = CHR 0x0A"

definition tab :: char where
  "tab = CHR 0x09"

text \<open>\<^verbatim>\<open>s.strip()\<close>: drop the whitespace at both ends.\<close>

definition lstrip :: "string \<Rightarrow> string" where
  "lstrip s = dropWhile is_space s"

definition rstrip :: "string \<Rightarrow> string" where
  "rstrip s = rev (dropWhile is_space (rev s))"

definition strip :: "string \<Rightarrow> string" where
  "strip s = rstrip (lstrip s)"

text \<open>\<^verbatim>\<open>s.split(sep)\<close> for a one-character separator: never an empty list.\<close>

fun split_on :: "char \<Rightarrow> string \<Rightarrow> string list" where
  "split_on sep [] = [[]]"
| "split_on sep (c # cs) =
     (if c = sep then [] # split_on sep cs
      else (case split_on sep cs of
              [] \<Rightarrow> [[c]]
            | l # ls \<Rightarrow> (c # l) # ls))"

section \<open>Address records\<close>

text \<open>
  An address is a Python \<^verbatim>\<open>dict\<close> from field names to strings.  It is modelled as
  an association list in insertion order; \<^const>\<open>AList.update\<close> is the assignment
  \<^verbatim>\<open>d[k] = v\<close> (an existing key keeps its place, a new key is appended),
  \<^const>\<open>map_of\<close> the lookup and the length of the list \<^verbatim>\<open>len(d)\<close>.
\<close>

type_synonym address = "(string \<times> string) list"

definition has_key :: "string \<Rightarrow> address \<Rightarrow> bool" where
  "has_key k d = (map_of d k \<noteq> None)"

definition dict_get :: "address \<Rightarrow> string \<Rightarrow> string \<Rightarrow> string" where
  "dict_get d k dflt = (case map_of d k of None \<Rightarrow> dflt | Some v \<Rightarrow> v)"

section \<open>The ZIP normalizer\<close>

text \<open>
  \<^verbatim>\<open>re.search(r'(\d{5})', zip_code)\<close>: the leftmost position at which five decimal
  digits follow each other; the group is those five characters.
\<close>

fun search_digits5 :: "string \<Rightarrow> string option" where
  "search_digits5 s =
     (if 5 \<le> length s \<and> list_all is_digit (take 5 s) then Some (take 5 s)
      else (case s of [] \<Rightarrow> None | c # cs \<Rightarrow> search_digits5 cs))"

declare search_digits5.simps [simp del]

definition normalize_zip_code :: "string \<Rightarrow> string" where
  "normalize_zip_code zip_code =
     (if zip_code = [] then ''00000''
      else (case search_digits5 zip_code of
              Some m \<Rightarrow> m
            | None \<Rightarrow> ''00000''))"

text \<open>
  The words of the specification: a run of five decimal digits starts at index \<open>i\<close>.
\<close>

definition digits5_at :: "string \<Rightarrow> nat \<Rightarrow> bool" where
  "digits5_at s i = (i + 5 \<le> length s \<and> list_all is_digit (take 5 (drop i s)))"

section \<open>The driver's sort\<close>

text \<open>
  \<^verbatim>\<open>sorted(all_addresses, key=lambda x: normalize_zip_code(x.get('zip', '')))\<close>.
  Python's \<^verbatim>\<open>sorted\<close> is a stable sort on the key; \<^const>\<open>sort_key\<close> is the
  stable sort of the library.
\<close>

definition zip_key :: "address \<Rightarrow> string" where
  "zip_key x = normalize_zip_code (dict_get x ''zip'' [])"

definition sort_addresses :: "address list \<Rightarrow> address list" where
  "sort_addresses all_addresses = sort_key zip_key all_addresses"

section \<open>Diagnostics\<close>

text \<open>
  A parser returns its list of addresses, or prints one diagnostic on the error stream and
  returns \<^verbatim>\<open>None\<close>; \<open>Inl\<close> carries the diagnostic.  \<open>Uncaught\<close> stands for an
  exception that no handler of the program catches: the interpreter prints a traceback and
  the process ends with status 1.  \<open>Usage\<close> is the usage message with which the argument
  parser rejects a command line.
\<close>

datatype diag =
    FileNotFound string
  | XmlParseError string
  | EmptyTsvFile string
  | TsvError string
  | TxtError string
  | UnsupportedExtension string
  | Uncaught string
  | Usage

section \<open>The markup parser\<close>

text \<open>
  The tree \<^verbatim>\<open>ET.parse\<close> returns: an element has a tag, a text (\<^verbatim>\<open>None\<close> or a
  string) and its child elements in document order.
\<close>

datatype element = Element (tag: string) (text_of: "string option") (children: "element list")

text \<open>\<^verbatim>\<open>e.find(t)\<close>: the first child with that tag; \<^verbatim>\<open>e.findall(t)\<close>: all of them.\<close>

definition find_child :: "string \<Rightarrow> element \<Rightarrow> element option" where
  "find_child t e = List.find (\<lambda>c. tag c = t) (children e)"

definition findall :: "string \<Rightarrow> element \<Rightarrow> element list" where
  "findall t e = filter (\<lambda>c. tag c = t) (children e)"

text \<open>The test \<^verbatim>\<open>x is not None and x.text\<close>, returning the text when it holds.\<close>

definition truthy_text :: "element option \<Rightarrow> string option" where
  "truthy_text x =
     (case x of
        None \<Rightarrow> None
      | Some e \<Rightarrow> (case text_of e of
                   None \<Rightarrow> None
                 | Some t \<Rightarrow> if t = [] then None else Some t))"

definition xml_field :: "element \<Rightarrow> string \<Rightarrow> string \<Rightarrow> address \<Rightarrow> address" where
  "xml_field record t k address =
     (case truthy_text (find_child t record) of
        None \<Rightarrow> address
      | Some txt \<Rightarrow> AList.update k (strip txt) address)"

definition xml_fields :: "element \<Rightarrow> address \<Rightarrow> address" where
  "xml_fields record address =
     xml_field record ''zip'' ''zip''
       (xml_field record ''state'' ''state''
         (xml_field record ''county'' ''county''
           (xml_field record ''city'' ''city''
             (xml_field record ''street'' ''street'' address))))"

text \<open>One pass of the loop body; \<open>None\<close> is the \<^verbatim>\<open>continue\<close>.\<close>

definition xml_record :: "element \<Rightarrow> address option" where
  "xml_record record =
     (case truthy_text (find_child ''name'' record) of
        Some txt \<Rightarrow> Some (xml_fields record (AList.update ''name'' (strip txt) []))
      | None \<Rightarrow>
          (case truthy_text (find_child ''organization'' record) of
             Some txt \<Rightarrow> Some (xml_fields record (AList.update ''organization'' (strip txt) []))
           | None \<Rightarrow> None))"

definition xml_records :: "element \<Rightarrow> address list" where
  "xml_records root = List.map_filter xml_record (findall ''record'' root)"

section \<open>The tabular parser\<close>

text \<open>\<^verbatim>\<open>file.readlines()\<close>: the lines of the text, each with its newline.\<close>

fun readlines :: "string \<Rightarrow> string list" where
  "readlines [] = []"
| "readlines (c # cs) =
     (if c = newline then [c] # readlines cs
      else (case readlines cs of
              [] \<Rightarrow> [[c]]
            | l # ls \<Rightarrow> (c # l) # ls))"

definition tsv_fields :: "string \<Rightarrow> string list" where
  "tsv_fields line = split_on tab (strip line)"

text \<open>
  The loop over \<^verbatim>\<open>enumerate(fields)\<close> guarded by \<^verbatim>\<open>j < len(header)\<close>: the values
  are paired with the header names by position, up to the shorter of the two.
\<close>

definition column_data :: "string list \<Rightarrow> string list \<Rightarrow> address" where
  "column_data header fields =
     fold (\<lambda>(h, v) cd. AList.update h (strip v) cd) (zip header fields) []"

text \<open>
  The test \<^verbatim>\<open>k in column_data and column_data[k] and column_data[k] != sentinel\<close>,
  returning the value when it holds.
\<close>

definition column_value :: "address \<Rightarrow> string \<Rightarrow> string \<Rightarrow> string option" where
  "column_value cd k sentinel =
     (case map_of cd k of
        None \<Rightarrow> None
      | Some v \<Rightarrow> if v \<noteq> [] \<and> v \<noteq> sentinel then Some v else None)"

definition set_field :: "string \<Rightarrow> string option \<Rightarrow> address \<Rightarrow> address" where
  "set_field k v address = (case v of None \<Rightarrow> address | Some x \<Rightarrow> AList.update k x address)"

text \<open>\<^verbatim>\<open>' '.join(parts)\<close>.\<close>

fun join_space :: "string list \<Rightarrow> string" where
  "join_space [] = []"
| "join_space [x] = x"
| "join_space (x # y # ys) = x @ '' '' @ join_space (y # ys)"

definition tsv_identity :: "address \<Rightarrow> address" where
  "tsv_identity cd =
     (case column_value cd ''organization'' ''N/A'' of
        Some v \<Rightarrow> AList.update ''organization'' v []
      | None \<Rightarrow>
          (case (map_of cd ''first'', map_of cd ''last'') of
             (Some first_name, Some last_name) \<Rightarrow>
               AList.update ''name''
                 (join_space ([first_name]
                    @ (case column_value cd ''middle'' ''N/M/N'' of
                         None \<Rightarrow> []
                       | Some middle_name \<Rightarrow> [middle_name])
                    @ [last_name])) []
           | _ \<Rightarrow> []))"

definition tsv_zip :: "address \<Rightarrow> string option" where
  "tsv_zip cd =
     (case column_value cd ''zip'' ''N/A'' of
        None \<Rightarrow> None
      | Some zip_code \<Rightarrow>
          (case column_value cd ''zip4'' ''N/A'' of
             None \<Rightarrow> Some zip_code
           | Some zip4 \<Rightarrow> Some (zip_code @ ''-'' @ zip4)))"

definition tsv_address :: "address \<Rightarrow> address" where
  "tsv_address cd =
     set_field ''zip'' (tsv_zip cd)
       (set_field ''state'' (column_value cd ''state'' ''N/A'')
         (set_field ''county'' (column_value cd ''county'' ''N/A'')
           (set_field ''city'' (column_value cd ''city'' ''N/A'')
             (set_field ''street'' (column_value cd ''address'' ''N/A'')
               (tsv_identity cd)))))"

text \<open>The acceptance test that guards \<^verbatim>\<open>addresses.append(address)\<close>.\<close>

definition tsv_accept :: "address \<Rightarrow> bool" where
  "tsv_accept address =
     ((has_key ''name'' address \<or> has_key ''organization'' address) \<and> 1 < length address)"

text \<open>One data line: \<open>None\<close> when the line is blank or the record is not accepted.\<close>

definition tsv_row :: "string list \<Rightarrow> string \<Rightarrow> address option" where
  "tsv_row header line =
     (if strip line = [] then None
      else (let address = tsv_address (column_data header (tsv_fields line))
            in if tsv_accept address then Some address else None))"

definition parse_tsv_lines :: "string \<Rightarrow> string list \<Rightarrow> diag + address list" where
  "parse_tsv_lines filepath lines =
     (case lines of
        [] \<Rightarrow> Inl (EmptyTsvFile filepath)
      | first # rest \<Rightarrow> Inr (List.map_filter (tsv_row (tsv_fields first)) rest))"

section \<open>The free-text parser\<close>

text \<open>
  \<^verbatim>\<open>re.split(r'\n\s*\n', content)\<close>.  A separator starts at a newline; \<^verbatim>\<open>\s*\<close> is
  greedy, so the separator runs to the last newline of the whitespace that follows.
  \<open>blank_sep cs\<close> is the number of characters of \<open>cs\<close> (the text after the first newline)
  that the separator takes, when there is one.
\<close>

definition blank_sep :: "string \<Rightarrow> nat option" where
  "blank_sep cs =
     (let k = length (dropWhile (\<lambda>c. c \<noteq> newline) (rev (takeWhile is_space cs)))
      in if k = 0 then None else Some k)"

fun re_split_blank :: "string \<Rightarrow> string list" where
  "re_split_blank [] = [[]]"
| "re_split_blank (c # cs) =
     (case (if c = newline then blank_sep cs else None) of
        Some n \<Rightarrow> [] # re_split_blank (drop n cs)
      | None \<Rightarrow>
          (case re_split_blank cs of
             [] \<Rightarrow> [[c]]
           | p # ps \<Rightarrow> (c # p) # ps))"

text \<open>
  The test of the first line,
  \<^verbatim>\<open>re.search(r'(Inc\.|LLC|Ltd\.|\bLLC\b|Company|Corp\.|Corporation)', first_line)\<close>,
  only asks whether the pattern occurs.  The alternative \<^verbatim>\<open>\bLLC\b\<close> can only match
  where the alternative \<^verbatim>\<open>LLC\<close> before it matches, so the pattern occurs exactly when
  one of the six literal markers is a substring of the line.
\<close>

fun contains :: "string \<Rightarrow> string \<Rightarrow> bool" where
  "contains sub [] = (sub = [])"
| "contains sub (c # cs) = (take (length sub) (c # cs) = sub \<or> contains sub cs)"

definition is_organization :: "string \<Rightarrow> bool" where
  "is_organization first_line =
     list_ex (\<lambda>marker. contains marker first_line)
       [''Inc.'', ''LLC'', ''Ltd.'', ''Company'', ''Corp.'', ''Corporation'']"

text \<open>
  The location pattern
  \<^verbatim>\<open>([^,]+),\s*(?:([^,]+),\s*)?([A-Za-z]{2}|[A-Za-z]+)\s+(\d{5}(?:-\d{4})?)\<close>
  is matched by backtracking.  Each piece of the pattern is a function from the text still
  to be matched to the list of its ways to match a prefix of it, in the order in which the
  matcher tries them; a way is the text it took with the text it left.  The match that
  \<^verbatim>\<open>re.search\<close> returns is the first way of the whole pattern at the leftmost start
  that has one.
\<close>

text \<open>A greedy repetition of a character class, at least \<open>m\<close> times: longest first.\<close>

definition many :: "(char \<Rightarrow> bool) \<Rightarrow> nat \<Rightarrow> string \<Rightarrow> (string \<times> string) list" where
  "many p m s =
     (let n = length (takeWhile p s)
      in map (\<lambda>k. (take k s, drop k s)) (rev [m..<Suc n]))"

text \<open>A character class exactly \<open>m\<close> times.\<close>

definition exactly :: "(char \<Rightarrow> bool) \<Rightarrow> nat \<Rightarrow> string \<Rightarrow> (string \<times> string) list" where
  "exactly p m s =
     (if m \<le> length s \<and> list_all p (take m s) then [(take m s, drop m s)] else [])"

text \<open>One literal character.\<close>

definition lit :: "char \<Rightarrow> string \<Rightarrow> string list" where
  "lit c s = (case s of [] \<Rightarrow> [] | x # xs \<Rightarrow> if x = c then [xs] else [])"

definition not_comma :: "char \<Rightarrow> bool" where
  "not_comma c = (c \<noteq> CHR '','')"

text \<open>\<^verbatim>\<open>(\d{5}(?:-\d{4})?)\<close>: the extension is tried first.\<close>

definition zip_pat :: "string \<Rightarrow> (string \<times> string) list" where
  "zip_pat s =
     concat (map (\<lambda>(d5, r).
         concat (map (\<lambda>r1. map (\<lambda>(d4, r2). (d5 @ ''-'' @ d4, r2)) (exactly is_digit 4 r1))
                     (lit CHR ''-'' r))
         @ [(d5, r)])
       (exactly is_digit 5 s))"

text \<open>\<^verbatim>\<open>([A-Za-z]{2}|[A-Za-z]+)\<close>: the two-letter alternative is tried first.\<close>

definition state_pat :: "string \<Rightarrow> (string \<times> string) list" where
  "state_pat s = exactly is_alpha 2 s @ many is_alpha 1 s"

text \<open>\<^verbatim>\<open>(?:([^,]+),\s*)?\<close>: the group is tried first, then skipped.\<close>

definition county_pat :: "string \<Rightarrow> (string option \<times> string) list" where
  "county_pat s =
     concat (map (\<lambda>(g2, r1).
         concat (map (\<lambda>r2. map (\<lambda>(w, r3). (Some g2, r3)) (many is_space 0 r2))
                     (lit CHR '','' r1)))
       (many not_comma 1 s))
     @ [(None, s)]"

text \<open>The text after the first group and its comma: what remains of the pattern.\<close>

definition location_tail :: "string \<Rightarrow> (string option \<times> string \<times> string) list" where
  "location_tail r =
     concat (map (\<lambda>(w1, r3).
       concat (map (\<lambda>(g2, r4).
         concat (map (\<lambda>(st, r5).
           concat (map (\<lambda>(w2, r6).
             map (\<lambda>(z, r7). (g2, st, z)) (zip_pat r6))
           (many is_space 1 r5)))
         (state_pat r4)))
       (county_pat r3)))
     (many is_space 0 r))"

text \<open>The whole pattern at the start of \<open>s\<close>: the groups 1 to 4 of every way to match.\<close>

definition location_match_at ::
  "string \<Rightarrow> (string \<times> string option \<times> string \<times> string) list" where
  "location_match_at s =
     concat (map (\<lambda>(g1, r1).
       concat (map (\<lambda>r2. map (\<lambda>t. (g1, t)) (location_tail r2)) (lit CHR '','' r1)))
     (many not_comma 1 s))"

fun location_search :: "string \<Rightarrow> (string \<times> string option \<times> string \<times> string) option" where
  "location_search s =
     (case location_match_at s of
        m # ms \<Rightarrow> Some m
      | [] \<Rightarrow> (case s of [] \<Rightarrow> None | c # cs \<Rightarrow> location_search cs))"

declare location_search.simps [simp del]

definition txt_location :: "string \<Rightarrow> address \<Rightarrow> address" where
  "txt_location last_line address =
     (case location_search last_line of
        None \<Rightarrow> address
      | Some (g1, g2, g3, g4) \<Rightarrow>
          AList.update ''zip'' (strip g4)
            (AList.update ''state'' (strip g3)
              ((case g2 of
                  None \<Rightarrow> (\<lambda>a. a)
                | Some county \<Rightarrow>
                    if county = [] then (\<lambda>a. a) else AList.update ''county'' (strip county))
                (AList.update ''city'' (strip g1) address))))"

text \<open>The record built from the stripped lines of one paragraph.\<close>

definition txt_address :: "string list \<Rightarrow> address option" where
  "txt_address lines =
     (case lines of
        [] \<Rightarrow> None
      | first_line # rest \<Rightarrow>
          (let a1 = (if is_organization first_line
                     then AList.update ''organization'' first_line []
                     else AList.update ''name'' first_line []);
               a2 = (case rest of [] \<Rightarrow> a1 | second # more \<Rightarrow> AList.update ''street'' second a1)
           in Some (if 3 \<le> length lines then txt_location (last lines) a2 else a2)))"

text \<open>One piece of the split: \<open>None\<close> is the \<^verbatim>\<open>continue\<close>.\<close>

definition txt_record :: "string \<Rightarrow> address option" where
  "txt_record record =
     (if strip record = [] then None
      else txt_address (map strip (split_on newline (strip record))))"

definition parse_txt_content :: "string \<Rightarrow> address list" where
  "parse_txt_content content = List.map_filter txt_record (re_split_blank content)"

section \<open>Files, the dispatcher and the driver\<close>

text \<open>
  What the program asks of its environment: whether a path is a regular file
  (\<^verbatim>\<open>os.path.isfile\<close>), the text of a file as Python's text mode returns it, decoded
  and with every line end a single newline (\<open>None\<close> when opening, reading or decoding it
  raises), and the outcome of \<^verbatim>\<open>ET.parse\<close> on it.
\<close>

datatype et_outcome = EtParseError | EtOtherError | EtTree element

text \<open>
  The outcome of \<^verbatim>\<open>parser.parse_args()\<close>: the parser rejects the command line and
  ends the process with status 2, or it prints its help and ends the process with status 0,
  or it returns the list \<^verbatim>\<open>args.files\<close>, which \<^verbatim>\<open>nargs='+'\<close> makes non-empty: a
  first path and the paths after it.
\<close>

datatype cli = ArgsError | ArgsHelp | ArgsFiles string "string list"

text \<open>
  The environment also says what the argument parser makes of a command line in which an
  argument starts with a hyphen, and whether \<^verbatim>\<open>output.json\<close> can be opened and
  written.
\<close>

record env =
  isfile :: "string \<Rightarrow> bool"
  read_text :: "string \<Rightarrow> string option"
  et_parse :: "string \<Rightarrow> et_outcome"
  argparse_options :: "string list \<Rightarrow> cli"
  write_ok :: bool

definition parse_xml_file :: "env \<Rightarrow> string \<Rightarrow> diag + address list" where
  "parse_xml_file e filepath =
     (case et_parse e filepath of
        EtTree root \<Rightarrow> Inr (xml_records root)
      | EtParseError \<Rightarrow> Inl (XmlParseError filepath)
      | EtOtherError \<Rightarrow> Inl (Uncaught filepath))"

definition parse_tsv_file :: "env \<Rightarrow> string \<Rightarrow> diag + address list" where
  "parse_tsv_file e filepath =
     (case read_text e filepath of
        None \<Rightarrow> Inl (TsvError filepath)
      | Some content \<Rightarrow> parse_tsv_lines filepath (readlines content))"

definition parse_txt_file :: "env \<Rightarrow> string \<Rightarrow> diag + address list" where
  "parse_txt_file e filepath =
     (case read_text e filepath of
        None \<Rightarrow> Inl (TxtError filepath)
      | Some content \<Rightarrow> Inr (parse_txt_content content))"

text \<open>
  The extension of \<^verbatim>\<open>os.path.splitext\<close> (POSIX): from the last dot of the last path
  component, provided a character other than a dot stands before it in that component.
\<close>

definition splitext_ext :: "string \<Rightarrow> string" where
  "splitext_ext p =
     (let base = rev (takeWhile (\<lambda>c. c \<noteq> CHR ''/'') (rev p));
          after = rev (takeWhile (\<lambda>c. c \<noteq> CHR ''.'') (rev base));
          stem = take (length base - length after - 1) base
      in if length after < length base \<and> \<not> list_all (\<lambda>c. c = CHR ''.'') stem
         then CHR ''.'' # after else [])"

text \<open>\<^verbatim>\<open>str.lower\<close> on the code points below 256.\<close>

definition lower_char :: "char \<Rightarrow> char" where
  "lower_char c =
     (let n = code_point c
      in if (65 \<le> n \<and> n \<le> 90) \<or> (192 \<le> n \<and> n \<le> 222 \<and> n \<noteq> 215)
         then char_of (n + 32) else c)"

definition lower :: "string \<Rightarrow> string" where
  "lower s = map lower_char s"

definition parse_file :: "env \<Rightarrow> string \<Rightarrow> diag + address list" where
  "parse_file e filepath =
     (let ext = lower (splitext_ext filepath)
      in if ext = ''.xml'' then parse_xml_file e filepath
         else if ext = ''.tsv'' then parse_tsv_file e filepath
         else if ext = ''.txt'' then parse_txt_file e filepath
         else Inl (UnsupportedExtension ext))"

text \<open>
  What a run leaves behind: the documents printed on the output stream, the diagnostics on
  the error stream, the content of \<^verbatim>\<open>output.json\<close> when it was written, and the exit
  status.
\<close>

datatype out_item = JsonArray "address list" | SuccessLine nat | HelpText

record run =
  stdout :: "out_item list"
  stderr :: "diag list"
  output_json :: "address list option"
  exit_status :: nat

text \<open>The first loop of \<^verbatim>\<open>main\<close>: the first path that is not a file.\<close>

fun check_files :: "env \<Rightarrow> string list \<Rightarrow> diag option" where
  "check_files e [] = None"
| "check_files e (filepath # rest) =
     (if \<not> isfile e filepath then Some (FileNotFound filepath) else check_files e rest)"

text \<open>The second loop: parse each file in turn, stop at the first failure.\<close>

fun parse_all :: "env \<Rightarrow> address list \<Rightarrow> string list \<Rightarrow> diag + address list" where
  "parse_all e all_addresses [] = Inr all_addresses"
| "parse_all e all_addresses (filepath # rest) =
     (case parse_file e filepath of
        Inl d \<Rightarrow> Inl d
      | Inr addresses \<Rightarrow> parse_all e (all_addresses @ addresses) rest)"

text \<open>
  \<^verbatim>\<open>parser.parse_args()\<close> for the one positional argument \<^verbatim>\<open>files\<close> with
  \<^verbatim>\<open>nargs='+'\<close>: an empty command line is rejected; a command line in which no
  argument starts with a hyphen is the list of files; any other is left to the
  environment.
\<close>

definition parse_args :: "env \<Rightarrow> string list \<Rightarrow> cli" where
  "parse_args e argv =
     (case argv of
        [] \<Rightarrow> ArgsError
      | a # rest \<Rightarrow>
          if list_ex (\<lambda>x. take 1 x = ''-'') argv then argparse_options e argv
          else ArgsFiles a rest)"

text \<open>
  A run that ends before the output: \<^verbatim>\<open>sys.exit(1)\<close> after a diagnostic, or an
  uncaught exception.
\<close>

definition failed_run :: "diag \<Rightarrow> run" where
  "failed_run d = \<lparr>stdout = [], stderr = [d], output_json = None, exit_status = 1\<rparr>"

text \<open>
  The end of \<^verbatim>\<open>main\<close>: the JSON document is printed, then \<^verbatim>\<open>output.json\<close> is
  opened and written, then the success line is printed and the process ends with status 0.
  When the file cannot be opened or written the exception is not caught: the document has
  been printed, no success line follows and the status is 1.  The standard streams are
  taken to accept what is printed.
\<close>

definition write_output :: "env \<Rightarrow> address list \<Rightarrow> run" where
  "write_output e sorted_addresses =
     (if write_ok e
      then \<lparr>stdout = [JsonArray sorted_addresses, SuccessLine (length sorted_addresses)],
            stderr = [],
            output_json = Some sorted_addresses,
            exit_status = 0\<rparr>
      else \<lparr>stdout = [JsonArray sorted_addresses],
            stderr = [Uncaught ''output.json''],
            output_json = None,
            exit_status = 1\<rparr>)"

definition main :: "env \<Rightarrow> string list \<Rightarrow> run" where
  "main e argv =
     (case parse_args e argv of
        ArgsError \<Rightarrow> \<lparr>stdout = [], stderr = [Usage], output_json = None, exit_status = 2\<rparr>
      | ArgsHelp \<Rightarrow> \<lparr>stdout = [HelpText], stderr = [], output_json = None, exit_status = 0\<rparr>
      | ArgsFiles a rest \<Rightarrow>
          (let files = a # rest
           in case check_files e files of
                Some d \<Rightarrow> failed_run d
              | None \<Rightarrow>
                  (case parse_all e [] files of
                     Inl d \<Rightarrow> failed_run d
                   | Inr all_addresses \<Rightarrow> write_output e (sort_addresses all_addresses))))"

section \<open>Vocabulary of the specification\<close>

text \<open>A record carries both identity fields.\<close>

definition both_identities :: "address \<Rightarrow> bool" where
  "both_identities a = (has_key ''name'' a \<and> has_key ''organization'' a)"

text \<open>A blank string has no character other than whitespace: \<^verbatim>\<open>not s.strip()\<close>.\<close>

definition is_blank :: "string \<Rightarrow> bool" where
  "is_blank s = list_all is_space s"

text \<open>The line of a tab-delimited file that holds the given columns.\<close>

fun join_tab :: "string list \<Rightarrow> string" where
  "join_tab [] = []"
| "join_tab [x] = x"
| "join_tab (x # y # ys) = x @ [tab] @ join_tab (y # ys)"

definition tsv_line :: "string list \<Rightarrow> string" where
  "tsv_line columns = join_tab columns @ [newline]"

text \<open>
  The runs of digits of a string, each as long as it can be, and the first of them that has
  exactly five digits.
\<close>

function digit_runs :: "string \<Rightarrow> string list" where
  "digit_runs s =
     (case dropWhile (\<lambda>c. \<not> is_digit c) s of
        [] \<Rightarrow> []
      | d # rest \<Rightarrow> (d # takeWhile is_digit rest) # digit_runs (dropWhile is_digit rest))"
  by pat_completeness auto
termination
proof (relation "measure length")
  fix s :: string and d rest
  assume d: "dropWhile (\<lambda>c. \<not> is_digit c) s = d # rest"
  have "length (dropWhile is_digit rest) \<le> length rest"
    by (rule length_dropWhile_le)
  moreover have "length (dropWhile (\<lambda>c. \<not> is_digit c) s) \<le> length s"
    by (rule length_dropWhile_le)
  ultimately show "(dropWhile is_digit rest, s) \<in> measure length"
    using d by simp
qed simp

declare digit_runs.simps [simp del]

definition first_run_of_exactly5 :: "string \<Rightarrow> string option" where
  "first_run_of_exactly5 s = List.find (\<lambda>r. length r = 5) (digit_runs s)"


text \<open>
  A ZIP code as the location pattern takes it: five digits, or five digits, a hyphen and
  four digits.
\<close>

definition zip_shaped :: "string \<Rightarrow> bool" where
  "zip_shaped z =
     (list_all is_digit (take 5 z) \<and>
      (length z = 5 \<or> (length z = 10 \<and> z ! 5 = CHR ''-'' \<and> list_all is_digit (drop 6 z))))"

text \<open>The shape of the text a match covers after the first group and its comma.\<close>

definition tail_shape :: "string \<Rightarrow> string option \<times> string \<times> string \<Rightarrow> bool" where
  "tail_shape r t =
     (case t of (g2, g3, g4) \<Rightarrow>
        \<exists>w1 mid w2 rest.
          r = w1 @ mid @ g3 @ w2 @ g4 @ rest
          \<and> list_all is_space w1
          \<and> (case g2 of
                None \<Rightarrow> mid = []
              | Some c \<Rightarrow> c \<noteq> [] \<and> list_all not_comma c
                  \<and> (\<exists>w. list_all is_space w \<and> mid = c @ '','' @ w))
          \<and> g3 \<noteq> [] \<and> list_all is_alpha g3
          \<and> w2 \<noteq> [] \<and> list_all is_space w2
          \<and> zip_shaped g4)"

text \<open>The fields that the location line of a paragraph can set.\<close>

definition location_keys :: "string list" where
  "location_keys = [''city'', ''county'', ''state'', ''zip'']"

text \<open>The paragraphs of a text given as its lines: the maximal runs of non-blank lines.\<close>

function paragraphs :: "string list \<Rightarrow> string list list" where
  "paragraphs ls =
     (case dropWhile is_blank ls of
        [] \<Rightarrow> []
      | l # rest \<Rightarrow>
          (l # takeWhile (\<lambda>x. \<not> is_blank x) rest)
            # paragraphs (dropWhile (\<lambda>x. \<not> is_blank x) rest))"
  by pat_completeness auto
termination
proof (relation "measure length")
  fix ls :: "string list" and l rest
  assume d: "dropWhile is_blank ls = l # rest"
  have "length (dropWhile (\<lambda>x. \<not> is_blank x) rest) \<le> length rest"
    by (rule length_dropWhile_le)
  moreover have "length (dropWhile is_blank ls) \<le> length ls"
    by (rule length_dropWhile_le)
  ultimately show "(dropWhile (\<lambda>x. \<not> is_blank x) rest, ls) \<in> measure length"
    using d by simp
qed simp

declare paragraphs.simps [simp del]

definition paragraph_count :: "string \<Rightarrow> nat" where
  "paragraph_count content = length (paragraphs (split_on newline content))"

text \<open>
  A file fails to parse: malformed markup or an error while reading it, a tabular file
  that cannot be read or has no line, a text file that cannot be read, or an extension
  that is none of the three.
\<close>

definition fails_to_parse :: "env \<Rightarrow> string \<Rightarrow> bool" where
  "fails_to_parse e filepath =
     (let ext = lower (splitext_ext filepath)
      in if ext = ''.xml'' then et_parse e filepath = EtParseError \<or> et_parse e filepath = EtOtherError
         else if ext = ''.tsv''
           then read_text e filepath = None \<or> read_text e filepath = Some []
         else if ext = ''.txt'' then read_text e filepath = None
         else True)"

section \<open>Auxiliary counts\<close>

text \<open>
  Counting the lines at which a paragraph starts: a non-blank line that is the first line
  or follows a blank line.
\<close>

fun count_starts :: "bool \<Rightarrow> string list \<Rightarrow> nat" where
  "count_starts prev_blank [] = 0"
| "count_starts prev_blank (l # ls) =
     (if prev_blank \<and> \<not> is_blank l then 1 else 0) + count_starts (is_blank l) ls"

text \<open>The count of paragraph starts, read character by character.\<close>

definition starts_from :: "bool \<Rightarrow> bool \<Rightarrow> string \<Rightarrow> nat" where
  "starts_from pb nb s =
     (case split_on newline s of
        [] \<Rightarrow> 0
      | l # ls \<Rightarrow> (if pb \<and> \<not> nb \<and> \<not> is_blank l then 1 else 0)
                  + count_starts (\<not> nb \<and> is_blank l) ls)"

text \<open>
  The count of non-blank pieces of the split, for a text that continues a piece; \<open>cb\<close>
  tells whether the piece so far has a character other than whitespace.
\<close>

definition pieces_from :: "bool \<Rightarrow> string \<Rightarrow> nat" where
  "pieces_from cb s =
     (case re_split_blank s of
        [] \<Rightarrow> 0
      | p # ps \<Rightarrow> (if cb \<or> \<not> is_blank p then 1 else 0)
                  + length (filter (\<lambda>r. \<not> is_blank r) ps))"

section \<open>Properties of the ZIP normalizer\<close>

lemma digits5_at_Cons_Suc: "digits5_at (c # cs) (Suc i) = digits5_at cs i"
  by (auto simp: digits5_at_def)

lemma digits5_at_zero:
  "digits5_at s 0 = (5 \<le> length s \<and> list_all is_digit (take 5 s))"
  by (simp add: digits5_at_def)

lemma digits5_at_Nil: "\<not> digits5_at [] i"
  by (simp add: digits5_at_def)

lemma ex_digits5_at_Cons:
  "\<not> digits5_at (c # cs) 0 \<Longrightarrow> (\<exists>i. digits5_at (c # cs) i) = (\<exists>i. digits5_at cs i)"
proof
  assume n0: "\<not> digits5_at (c # cs) 0" and "\<exists>i. digits5_at (c # cs) i"
  then obtain i where i: "digits5_at (c # cs) i" by blast
  with n0 obtain j where "i = Suc j" by (cases i) auto
  with i show "\<exists>i. digits5_at cs i" by (auto simp: digits5_at_Cons_Suc)
next
  assume "\<exists>i. digits5_at cs i"
  then show "\<exists>i. digits5_at (c # cs) i" by (metis digits5_at_Cons_Suc)
qed

lemma search_digits5_eq:
  "search_digits5 s =
     (if \<exists>i. digits5_at s i then Some (take 5 (drop (LEAST i. digits5_at s i) s)) else None)"
proof (induction s)
  case Nil
  show ?case by (simp add: search_digits5.simps [of "[]"] digits5_at_Nil)
next
  case (Cons c cs)
  show ?case
  proof (cases "digits5_at (c # cs) 0")
    case True
    then have l: "(LEAST i. digits5_at (c # cs) i) = 0" by (simp add: Least_eq_0)
    from True have ex: "\<exists>i. digits5_at (c # cs) i" by blast
    from True have "search_digits5 (c # cs) = Some (take 5 (c # cs))"
      by (simp add: search_digits5.simps [of "c # cs"] digits5_at_zero)
    with l ex show ?thesis by simp
  next
    case False
    then have n: "\<not> (5 \<le> length (c # cs) \<and> list_all is_digit (take 5 (c # cs)))"
      unfolding digits5_at_zero .
    have s: "search_digits5 (c # cs) = search_digits5 cs"
      by (subst search_digits5.simps) (simp only: n if_False list.case)
    show ?thesis
    proof (cases "\<exists>i. digits5_at cs i")
      case ex: True
      then obtain i where i: "digits5_at (c # cs) (Suc i)"
        by (auto simp: digits5_at_Cons_Suc)
      have "(LEAST i. digits5_at (c # cs) i) = Suc (LEAST i. digits5_at (c # cs) (Suc i))"
        using i False by (rule Least_Suc)
      then have "(LEAST i. digits5_at (c # cs) i) = Suc (LEAST i. digits5_at cs i)"
        by (simp add: digits5_at_Cons_Suc)
      with ex False s Cons.IH show ?thesis
        by (simp add: ex_digits5_at_Cons)
    next
      case nex: False
      with False s Cons.IH show ?thesis
        by (simp add: ex_digits5_at_Cons)
    qed
  qed
qed

text \<open>
  Claim C1, as amended.  On every string the ZIP normalizer returns a value (it is a total
  function and no branch of it can fail): when five decimal digits follow each other
  somewhere in the input, the result is the leftmost five consecutive digits, also when
  more digits follow them, and otherwise, the empty input included, it is the fallback key
  \<^verbatim>\<open>00000\<close>.
\<close>

theorem normalize_zip_code_first_run:
  "normalize_zip_code z =
     (if \<exists>i. digits5_at z i then take 5 (drop (LEAST i. digits5_at z i) z) else ''00000'')"
proof (cases "z = []")
  case True
  then show ?thesis by (simp add: normalize_zip_code_def digits5_at_Nil)
next
  case False
  then show ?thesis by (simp add: normalize_zip_code_def search_digits5_eq)
qed

theorem normalize_zip_code_first_run_witness:
  "digits5_at ''zip 90210-1234'' 4 \<and> normalize_zip_code ''zip 90210-1234'' = ''90210''
   \<and> normalize_zip_code ''n/a'' = ''00000'' \<and> normalize_zip_code [] = ''00000''"
proof -
  have a: "digits5_at ''zip 90210-1234'' 4"
    by (simp add: digits5_at_def is_digit_def code_point_def)
  have "\<not> digits5_at ''zip 90210-1234'' j" if "j < 4" for j
  proof -
    from that have "j = 0 \<or> j = 1 \<or> j = 2 \<or> j = 3" by arith
    then show ?thesis
      by (auto simp: digits5_at_def is_digit_def code_point_def)
  qed
  with a have l: "(LEAST i. digits5_at ''zip 90210-1234'' i) = 4"
    by (intro Least_equality) (auto simp: not_less [symmetric])
  have b: "normalize_zip_code ''zip 90210-1234'' = ''90210''"
    using normalize_zip_code_first_run [of "''zip 90210-1234''"] a l by auto
  have n: "\<not> digits5_at ''n/a'' i" for i
    by (simp add: digits5_at_def)
  have c: "normalize_zip_code ''n/a'' = ''00000''"
    using normalize_zip_code_first_run [of "''n/a''"] n by simp
  have d: "normalize_zip_code [] = ''00000''"
    using normalize_zip_code_first_run [of "[]"] by (simp add: digits5_at_Nil)
  from a b c d show ?thesis by simp
qed

text \<open>
  The claim as stated fails: the pattern asks for no boundary, so the first five digits of
  a longer run of digits are returned, whether a run of exactly five digits follows or
  the string has none.
\<close>

theorem longer_digit_run_counterexample:
  "first_run_of_exactly5 ''123456 54321'' = Some ''54321''
   \<and> normalize_zip_code ''123456 54321'' = ''12345''
   \<and> first_run_of_exactly5 ''1234567'' = None
   \<and> normalize_zip_code ''1234567'' = ''12345''"
  by code_simp

section \<open>Properties of the driver's sort\<close>

text \<open>
  Claim C2.  For every list of records the driver's sort returns a permutation of the list
  on which the normalized ZIP key, that is \<^const>\<open>normalize_zip_code\<close> applied to the value
  of \<^verbatim>\<open>zip\<close> or to the empty string when the record has none, is non-decreasing, and,
  for every key, the records with that key stand in the order they had in the input
  (stability); this covers the records that fall back to \<^verbatim>\<open>00000\<close>.
\<close>

theorem sort_addresses_stable_sorted_perm:
  "mset (sort_addresses xs) = mset xs
   \<and> sorted (map (\<lambda>x. normalize_zip_code (case map_of x ''zip'' of None \<Rightarrow> [] | Some z \<Rightarrow> z))
        (sort_addresses xs))
   \<and> (\<forall>k. filter (\<lambda>x. normalize_zip_code (case map_of x ''zip'' of None \<Rightarrow> [] | Some z \<Rightarrow> z)
                       = k) (sort_addresses xs)
          = filter (\<lambda>x. normalize_zip_code (case map_of x ''zip'' of None \<Rightarrow> [] | Some z \<Rightarrow> z)
                       = k) xs)"
proof -
  have k: "normalize_zip_code (case map_of x ''zip'' of None \<Rightarrow> [] | Some z \<Rightarrow> z) = zip_key x"
    for x
    by (simp add: zip_key_def dict_get_def)
  show ?thesis
    by (simp add: k sort_addresses_def sort_key_stable)
qed

theorem sort_addresses_stable_sorted_perm_witness:
  "sort_addresses
     [[(''name'', ''A''), (''zip'', ''90210-1234'')], [(''name'', ''B'')],
      [(''name'', ''C''), (''zip'', ''10001'')], [(''name'', ''D''), (''zip'', ''n/a'')]]
   = [[(''name'', ''B'')], [(''name'', ''D''), (''zip'', ''n/a'')],
      [(''name'', ''C''), (''zip'', ''10001'')], [(''name'', ''A''), (''zip'', ''90210-1234'')]]
   \<and> filter (\<lambda>x. normalize_zip_code (case map_of x ''zip'' of None \<Rightarrow> [] | Some z \<Rightarrow> z)
                = ''00000'')
       (sort_addresses
         [[(''name'', ''A''), (''zip'', ''90210-1234'')], [(''name'', ''B'')],
          [(''name'', ''C''), (''zip'', ''10001'')], [(''name'', ''D''), (''zip'', ''n/a'')]])
     = [[(''name'', ''B'')], [(''name'', ''D''), (''zip'', ''n/a'')]]
   \<and> map (\<lambda>x. normalize_zip_code (case map_of x ''zip'' of None \<Rightarrow> [] | Some z \<Rightarrow> z))
       (sort_addresses
         [[(''name'', ''A''), (''zip'', ''90210-1234'')], [(''name'', ''B'')],
          [(''name'', ''C''), (''zip'', ''10001'')], [(''name'', ''D''), (''zip'', ''n/a'')]])
     = [''00000'', ''00000'', ''10001'', ''90210'']"
proof -
  let ?xs = "[[(''name'', ''A''), (''zip'', ''90210-1234'')], [(''name'', ''B'')],
      [(''name'', ''C''), (''zip'', ''10001'')], [(''name'', ''D''), (''zip'', ''n/a'')]]"
  let ?key = "\<lambda>x. normalize_zip_code (case map_of x ''zip'' of None \<Rightarrow> [] | Some z \<Rightarrow> z)"
  have e: "sort_addresses ?xs
      = [[(''name'', ''B'')], [(''name'', ''D''), (''zip'', ''n/a'')],
         [(''name'', ''C''), (''zip'', ''10001'')], [(''name'', ''A''), (''zip'', ''90210-1234'')]]"
    by code_simp
  have f: "filter (\<lambda>x. ?key x = ''00000'') ?xs
      = [[(''name'', ''B'')], [(''name'', ''D''), (''zip'', ''n/a'')]]"
    by code_simp
  from sort_addresses_stable_sorted_perm [of ?xs]
  have "filter (\<lambda>x. ?key x = ''00000'') (sort_addresses ?xs)
      = filter (\<lambda>x. ?key x = ''00000'') ?xs"
    by blast
  with f have g: "filter (\<lambda>x. ?key x = ''00000'') (sort_addresses ?xs)
      = [[(''name'', ''B'')], [(''name'', ''D''), (''zip'', ''n/a'')]]"
    by simp
  have m: "map ?key (sort_addresses ?xs) = [''00000'', ''00000'', ''10001'', ''90210'']"
    unfolding e by code_simp
  from e g m show ?thesis by blast
qed

section \<open>Identity fields\<close>

lemma has_key_Nil: "\<not> has_key k []"
  by (simp add: has_key_def)

lemma has_key_Cons: "has_key k ((k', v) # d) = (k = k' \<or> has_key k d)"
  by (auto simp: has_key_def)

lemma has_key_update: "has_key k (AList.update k' v d) = (k = k' \<or> has_key k d)"
  by (simp add: has_key_def update_conv')

lemma has_key_set_field:
  "has_key k (set_field k' v d) = ((k = k' \<and> v \<noteq> None) \<or> has_key k d)"
  by (cases v) (auto simp: set_field_def has_key_update)

lemma has_key_xml_field:
  "k \<noteq> k' \<Longrightarrow> has_key k (xml_field r t k' d) = has_key k d"
  by (simp add: xml_field_def has_key_update split: option.splits)

lemma has_key_xml_fields:
  "k \<notin> {''street'', ''city'', ''county'', ''state'', ''zip''} \<Longrightarrow>
   has_key k (xml_fields r d) = has_key k d"
  by (simp add: xml_fields_def has_key_xml_field)

lemma xml_record_exclusive: "xml_record r = Some a \<Longrightarrow> \<not> both_identities a"
  by (auto simp: xml_record_def both_identities_def has_key_xml_fields has_key_Cons has_key_Nil
      split: option.splits)

lemma tsv_identity_cases:
  "tsv_identity cd = [] \<or> (\<exists>v. tsv_identity cd = [(''organization'', v)])
   \<or> (\<exists>v. tsv_identity cd = [(''name'', v)])"
  by (auto simp: tsv_identity_def split: option.splits)

lemma has_key_tsv_address:
  "k \<notin> {''street'', ''city'', ''county'', ''state'', ''zip''} \<Longrightarrow>
   has_key k (tsv_address cd) = has_key k (tsv_identity cd)"
  by (simp add: tsv_address_def has_key_set_field)

lemma tsv_address_exclusive: "\<not> both_identities (tsv_address cd)"
  using tsv_identity_cases [of cd]
  by (auto simp: both_identities_def has_key_tsv_address has_key_Cons has_key_Nil)

lemma tsv_row_exclusive: "tsv_row h l = Some a \<Longrightarrow> \<not> both_identities a"
  by (auto simp: tsv_row_def Let_def tsv_address_exclusive split: if_splits)

lemma has_key_txt_location:
  "k \<notin> {''city'', ''county'', ''state'', ''zip''} \<Longrightarrow>
   has_key k (txt_location l d) = has_key k d"
  by (auto simp: txt_location_def has_key_update split: option.splits)

lemma txt_address_exclusive: "txt_address ls = Some a \<Longrightarrow> \<not> both_identities a"
  by (auto simp: txt_address_def Let_def both_identities_def has_key_txt_location has_key_Cons
      has_key_Nil split: list.splits if_splits)

lemma txt_record_exclusive: "txt_record r = Some a \<Longrightarrow> \<not> both_identities a"
  by (auto simp: txt_record_def txt_address_exclusive split: if_splits)

lemma in_map_filter: "a \<in> set (List.map_filter f xs) \<Longrightarrow> \<exists>x \<in> set xs. f x = Some a"
  by (auto simp: List.map_filter_def)

text \<open>
  Claim C3.  No record that the markup parser, the tabular parser or the free-text parser
  emits has both the key \<^verbatim>\<open>name\<close> and the key \<^verbatim>\<open>organization\<close>.
\<close>

theorem identity_fields_exclusive:
  "(a \<in> set (xml_records root) \<longrightarrow> \<not> both_identities a)
   \<and> (parse_tsv_lines filepath lines = Inr addresses \<and> a \<in> set addresses
        \<longrightarrow> \<not> both_identities a)
   \<and> (a \<in> set (parse_txt_content content) \<longrightarrow> \<not> both_identities a)"
proof (intro conjI impI)
  assume "a \<in> set (xml_records root)"
  then show "\<not> both_identities a"
    by (auto simp: xml_records_def dest!: in_map_filter xml_record_exclusive)
next
  assume "parse_tsv_lines filepath lines = Inr addresses \<and> a \<in> set addresses"
  then show "\<not> both_identities a"
    by (auto simp: parse_tsv_lines_def split: list.splits dest!: in_map_filter tsv_row_exclusive)
next
  assume "a \<in> set (parse_txt_content content)"
  then show "\<not> both_identities a"
    by (auto simp: parse_txt_content_def dest!: in_map_filter txt_record_exclusive)
qed

theorem identity_fields_exclusive_witness:
  "[(''name'', ''Jane Doe''), (''zip'', ''12345'')]
     \<in> set (xml_records (Element ''addresses'' None
           [Element ''record'' None
              [Element ''name'' (Some ''Jane Doe'') [], Element ''organization'' (Some ''Acme'') [],
               Element ''zip'' (Some ''12345'') []]]))
   \<and> \<not> both_identities [(''name'', ''Jane Doe''), (''zip'', ''12345'')]
   \<and> parse_tsv_lines ''a.tsv''
        (readlines (tsv_line [''organization'', ''first'', ''last'', ''city'']
                    @ tsv_line [''Acme LLC'', ''John'', ''Smith'', ''Boston'']))
      = Inr [[(''organization'', ''Acme LLC''), (''city'', ''Boston'')]]
   \<and> \<not> both_identities [(''organization'', ''Acme LLC''), (''city'', ''Boston'')]
   \<and> [(''organization'', ''Acme Inc.''), (''street'', ''123 Main St'')]
     \<in> set (parse_txt_content (''Acme Inc.'' @ [newline] @ ''123 Main St''))
   \<and> \<not> both_identities [(''organization'', ''Acme Inc.''), (''street'', ''123 Main St'')]"
proof -
  let ?root = "Element ''addresses'' None
           [Element ''record'' None
              [Element ''name'' (Some ''Jane Doe'') [], Element ''organization'' (Some ''Acme'') [],
               Element ''zip'' (Some ''12345'') []]]"
  let ?lines = "readlines (tsv_line [''organization'', ''first'', ''last'', ''city'']
                    @ tsv_line [''Acme LLC'', ''John'', ''Smith'', ''Boston''])"
  let ?content = "''Acme Inc.'' @ [newline] @ ''123 Main St''"
  have x: "xml_records ?root = [[(''name'', ''Jane Doe''), (''zip'', ''12345'')]]"
    by code_simp
  have t: "parse_tsv_lines ''a.tsv'' ?lines
             = Inr [[(''organization'', ''Acme LLC''), (''city'', ''Boston'')]]"
    by code_simp
  have p: "parse_txt_content ?content
             = [[(''organization'', ''Acme Inc.''), (''street'', ''123 Main St'')]]"
    by code_simp
  have 1: "\<not> both_identities [(''name'', ''Jane Doe''), (''zip'', ''12345'')]"
    using identity_fields_exclusive
      [of "[(''name'', ''Jane Doe''), (''zip'', ''12345'')]" ?root] x
    by simp
  have 2: "\<not> both_identities [(''organization'', ''Acme LLC''), (''city'', ''Boston'')]"
    using identity_fields_exclusive
      [of "[(''organization'', ''Acme LLC''), (''city'', ''Boston'')]" _ "''a.tsv''" ?lines
          "[[(''organization'', ''Acme LLC''), (''city'', ''Boston'')]]"] t
    by simp
  have 3: "\<not> both_identities [(''organization'', ''Acme Inc.''), (''street'', ''123 Main St'')]"
    using identity_fields_exclusive
      [of "[(''organization'', ''Acme Inc.''), (''street'', ''123 Main St'')]" _ _ _ _ ?content] p
    by simp
  from x t p 1 2 3 show ?thesis by simp
qed

section \<open>Blank field values\<close>

lemma list_all_dropWhile: "list_all P (dropWhile P xs) = (dropWhile P xs = [])"
proof (cases "dropWhile P xs")
  case Nil
  show ?thesis unfolding Nil by simp
next
  case (Cons y ys)
  then have "\<not> P y" using hd_dropWhile [of P xs] by auto
  with Cons show ?thesis by simp
qed

lemma strip_eq_Nil_iff: "(strip s = []) = is_blank s"
proof -
  have "(strip s = []) = list_all is_space (dropWhile is_space s)"
    by (simp add: strip_def lstrip_def rstrip_def list_all_iff)
  also have "\<dots> = (dropWhile is_space s = [])"
    by (rule list_all_dropWhile)
  also have "\<dots> = is_blank s"
    by (simp add: is_blank_def list_all_iff)
  finally show ?thesis .
qed

lemma is_blank_strip: "is_blank (strip s) = is_blank s"
proof -
  have "is_blank (strip s) = (strip s = [])"
    by (simp add: is_blank_def strip_def rstrip_def list_all_dropWhile)
  then show ?thesis by (simp add: strip_eq_Nil_iff)
qed

lemma stripped_blank_iff: "is_blank (strip u) = (strip u = [])"
  by (simp add: is_blank_strip strip_eq_Nil_iff)

lemma is_blank_append: "is_blank (a @ b) = (is_blank a \<and> is_blank b)"
  by (simp add: is_blank_def)

lemma is_space_space: "is_space CHR '' ''"
  by (simp add: is_space_def code_point_def)

lemma is_blank_Cons: "is_blank (c # s) = (is_space c \<and> is_blank s)"
  by (simp add: is_blank_def)

lemma is_blank_join_space: "is_blank (join_space xs) = list_all is_blank xs"
  by (induction xs rule: join_space.induct)
     (simp_all add: is_blank_append is_blank_Cons is_space_space, simp add: is_blank_def)

lemma fold_update_stripped:
  "(\<And>k v. map_of acc k = Some v \<Longrightarrow> \<exists>u. v = strip u) \<Longrightarrow>
   map_of (fold (\<lambda>(h, v) cd. AList.update h (strip v) cd) ps acc) k = Some v \<Longrightarrow>
   \<exists>u. v = strip u"
proof (induction ps arbitrary: acc)
  case Nil
  then show ?case by simp
next
  case (Cons p ps)
  obtain h x where p: "p = (h, x)" by (cases p)
  have "\<And>k v. map_of (AList.update h (strip x) acc) k = Some v \<Longrightarrow> \<exists>u. v = strip u"
    using Cons.prems(1) by (auto simp: update_conv' split: if_splits)
  with Cons.IH [of "AList.update h (strip x) acc"] Cons.prems(2) p show ?case by simp
qed

lemma column_data_stripped: "map_of (column_data h f) k = Some v \<Longrightarrow> \<exists>u. v = strip u"
  unfolding column_data_def by (rule fold_update_stripped [where acc = "[]"]) simp_all

lemma column_data_blank_iff:
  "map_of (column_data h f) k = Some v \<Longrightarrow> is_blank v = (v = [])"
  using column_data_stripped [of h f k v] stripped_blank_iff by auto

lemma column_value_SomeD:
  "column_value cd k s = Some v \<Longrightarrow> map_of cd k = Some v \<and> v \<noteq> [] \<and> v \<noteq> s"
  by (auto simp: column_value_def split: option.splits if_splits)

lemma column_value_not_blank:
  "column_value (column_data h f) k s = Some v \<Longrightarrow> \<not> is_blank v"
  using column_data_blank_iff [of h f k v] by (auto dest: column_value_SomeD)

lemma map_of_set_field:
  "map_of (set_field k' vo d) k = (if k = k' \<and> vo \<noteq> None then vo else map_of d k)"
  by (cases vo) (auto simp: set_field_def update_conv')

lemma tsv_zip_not_blank: "tsv_zip (column_data h f) = Some z \<Longrightarrow> \<not> is_blank z"
  by (auto simp: tsv_zip_def is_blank_append split: option.splits
      dest: column_value_not_blank)

lemma tsv_name_value:
  "map_of (tsv_identity cd) ''name'' = Some v \<Longrightarrow>
   \<exists>f l. map_of cd ''first'' = Some f \<and> map_of cd ''last'' = Some l
     \<and> v = join_space ([f] @ (case column_value cd ''middle'' ''N/M/N'' of
                                 None \<Rightarrow> [] | Some m \<Rightarrow> [m]) @ [l])"
  by (cases "map_of cd ''first''"; cases "map_of cd ''last''";
      cases "column_value cd ''organization'' ''N/A''")
     (simp_all add: tsv_identity_def)

lemma tsv_identity_other:
  "map_of (tsv_identity cd) k = Some v \<Longrightarrow> k \<noteq> ''name'' \<Longrightarrow>
   k = ''organization'' \<and> column_value cd ''organization'' ''N/A'' = Some v"
  by (auto simp: tsv_identity_def split: option.splits if_splits)

lemma join_space_two_not_Nil: "join_space (x # y # ys) \<noteq> []"
  by simp

lemma tsv_address_value_not_blank:
  assumes "map_of (tsv_address (column_data h f)) k = Some v" and "k \<noteq> ''name''"
  shows "\<not> is_blank v"
proof -
  let ?cd = "column_data h f"
  from assms(1) have
    "(k = ''zip'' \<and> tsv_zip ?cd = Some v)
     \<or> (\<exists>c. column_value ?cd c ''N/A'' = Some v)
     \<or> map_of (tsv_identity ?cd) k = Some v"
    by (auto simp: tsv_address_def map_of_set_field split: if_splits)
  then show ?thesis
    using assms(2)
    by (auto dest: tsv_zip_not_blank column_value_not_blank tsv_identity_other)
qed

lemma tsv_address_name:
  assumes "map_of (tsv_address cd) ''name'' = Some v"
  shows "map_of (tsv_identity cd) ''name'' = Some v"
  using assms by (simp add: tsv_address_def map_of_set_field)

lemma tsv_name_blank:
  assumes "map_of (tsv_address (column_data h f)) ''name'' = Some v"
  shows "v \<noteq> [] \<and> (is_blank v =
      (map_of (column_data h f) ''first'' = Some [] \<and> map_of (column_data h f) ''last'' = Some []
       \<and> column_value (column_data h f) ''middle'' ''N/M/N'' = None))"
proof -
  let ?cd = "column_data h f"
  from tsv_name_value [OF tsv_address_name [OF assms]] obtain fn ln where
    fl: "map_of ?cd ''first'' = Some fn" "map_of ?cd ''last'' = Some ln" and
    v: "v = join_space ([fn] @ (case column_value ?cd ''middle'' ''N/M/N'' of
                                 None \<Rightarrow> [] | Some m \<Rightarrow> [m]) @ [ln])"
    by blast
  have bf: "is_blank fn = (fn = [])" and bl: "is_blank ln = (ln = [])"
    using fl column_data_blank_iff by auto
  show ?thesis
  proof (cases "column_value ?cd ''middle'' ''N/M/N''")
    case None
    with v fl bf bl show ?thesis
      by (simp add: is_blank_join_space del: join_space.simps)
         (simp)
  next
    case (Some m)
    then have "\<not> is_blank m" by (rule column_value_not_blank)
    with Some v show ?thesis
      by (simp add: is_blank_join_space del: join_space.simps) simp
  qed
qed

lemma truthy_text_find_child:
  "truthy_text (find_child t r) = Some txt \<Longrightarrow>
   \<exists>c \<in> set (children r). text_of c = Some txt \<and> txt \<noteq> []"
  by (auto simp: truthy_text_def find_child_def find_Some_iff
      split: option.splits if_splits)

lemma map_of_xml_field:
  "map_of (xml_field r t k' d) k =
     (case truthy_text (find_child t r) of
        None \<Rightarrow> map_of d k
      | Some txt \<Rightarrow> if k = k' then Some (strip txt) else map_of d k)"
  by (simp add: xml_field_def update_conv' split: option.splits)

lemma xml_record_value:
  assumes "xml_record r = Some a" and "map_of a k = Some v"
  shows "\<exists>c \<in> set (children r). \<exists>txt. text_of c = Some txt \<and> txt \<noteq> [] \<and> v = strip txt"
proof -
  let ?P = "\<exists>t s. truthy_text (find_child t r) = Some s \<and> v = strip s"
  have step: "?P \<or> map_of d k = Some v" if "map_of (xml_field r t k' d) k = Some v" for t k' d
    using that by (auto simp: map_of_xml_field split: option.splits if_splits)
  have fields: "?P \<or> map_of d k = Some v" if "map_of (xml_fields r d) k = Some v" for d
    using that unfolding xml_fields_def by (blast dest: step)
  from assms have "?P"
    by (auto simp: xml_record_def split: option.splits if_splits dest!: fields) blast+
  then show ?thesis by (blast dest: truthy_text_find_child)
qed

text \<open>
  Claim C4, as amended.  In a record of the markup parser every field is the stripped text
  of a child element, and it is not blank whenever that text has a character other than
  whitespace.  In a record of the tabular parser every field other than \<^verbatim>\<open>name\<close> is
  not blank; \<^verbatim>\<open>name\<close> is never the empty string, and it is blank exactly when the
  columns \<^verbatim>\<open>first\<close> and \<^verbatim>\<open>last\<close> are both empty and no middle name is used.
\<close>

theorem field_values_not_blank:
  "(xml_record r = Some a \<and> map_of a k = Some v \<longrightarrow>
      (\<exists>c \<in> set (children r). \<exists>txt. text_of c = Some txt \<and> v = strip txt
         \<and> (\<not> is_blank txt \<longrightarrow> \<not> is_blank v)))
   \<and> (tsv_row header line = Some b \<and> map_of b k = Some v \<longrightarrow>
      (k \<noteq> ''name'' \<longrightarrow> \<not> is_blank v)
      \<and> (k = ''name'' \<longrightarrow> v \<noteq> []
          \<and> (is_blank v =
               (map_of (column_data header (tsv_fields line)) ''first'' = Some []
                \<and> map_of (column_data header (tsv_fields line)) ''last'' = Some []
                \<and> column_value (column_data header (tsv_fields line)) ''middle'' ''N/M/N''
                    = None))))"
proof (intro conjI impI)
  assume "xml_record r = Some a \<and> map_of a k = Some v"
  then obtain c t0 where "c \<in> set (children r)" "text_of c = Some t0" "v = strip t0"
    using xml_record_value by blast
  then show "\<exists>c \<in> set (children r). \<exists>txt. text_of c = Some txt \<and> v = strip txt
         \<and> (\<not> is_blank txt \<longrightarrow> \<not> is_blank v)"
    by (auto simp: is_blank_strip)
next
  assume h: "tsv_row header line = Some b \<and> map_of b k = Some v" and k: "k \<noteq> ''name''"
  then have "b = tsv_address (column_data header (tsv_fields line))"
    by (auto simp: tsv_row_def Let_def split: if_splits)
  with h k show "\<not> is_blank v" by (auto dest: tsv_address_value_not_blank)
next
  assume h: "tsv_row header line = Some b \<and> map_of b k = Some v" and k: "k = ''name''"
  then have b: "b = tsv_address (column_data header (tsv_fields line))"
    by (auto simp: tsv_row_def Let_def split: if_splits)
  with h k show "v \<noteq> []" using tsv_name_blank by blast
  from b h k show "is_blank v =
               (map_of (column_data header (tsv_fields line)) ''first'' = Some []
                \<and> map_of (column_data header (tsv_fields line)) ''last'' = Some []
                \<and> column_value (column_data header (tsv_fields line)) ''middle'' ''N/M/N''
                    = None)"
    using tsv_name_blank by blast
qed

text \<open>
  The claim as stated fails: a row whose \<^verbatim>\<open>first\<close> and \<^verbatim>\<open>last\<close> columns are
  empty is emitted with the name \<^verbatim>\<open>" "\<close>, a blank string.
\<close>

theorem blank_name_counterexample:
  "parse_tsv_lines ''a.tsv''
     (readlines (tsv_line [''city'', ''first'', ''last'', ''state'']
                 @ tsv_line [''Boston'', [], [], ''MA'']))
   = Inr [[(''name'', '' ''), (''city'', ''Boston''), (''state'', ''MA'')]]
   \<and> is_blank '' ''"
  by code_simp

text \<open>
  The markup parser tests the text of an element before it strips it: an element whose
  text is only whitespace is stored as the empty string.
\<close>

lemma xml_whitespace_text_stored_empty:
  "xml_records (Element ''addresses'' None
     [Element ''record'' None
        [Element ''name'' (Some ''Jane Doe'') [], Element ''street'' (Some '' '') []]])
   = [[(''name'', ''Jane Doe''), (''street'', [])]]"
  by code_simp

theorem field_values_not_blank_witness:
  "xml_record (Element ''record'' None
        [Element ''name'' (Some '' Jane Doe '') [], Element ''zip'' (Some ''12345'') []])
     = Some [(''name'', ''Jane Doe''), (''zip'', ''12345'')]
   \<and> \<not> is_blank ''Jane Doe''
   \<and> tsv_row [''organization'', ''first'', ''last'', ''city'']
        (tsv_line [''N/A'', ''John'', ''Smith'', ''Boston''])
     = Some [(''name'', ''John Smith''), (''city'', ''Boston'')]
   \<and> \<not> is_blank ''Boston'' \<and> \<not> is_blank ''John Smith''"
proof -
  let ?r = "Element ''record'' None
        [Element ''name'' (Some '' Jane Doe '') [], Element ''zip'' (Some ''12345'') []]"
  let ?h = "[''organization'', ''first'', ''last'', ''city'']"
  let ?l = "tsv_line [''N/A'', ''John'', ''Smith'', ''Boston'']"
  have x: "xml_record ?r = Some [(''name'', ''Jane Doe''), (''zip'', ''12345'')]"
    by code_simp
  have t: "tsv_row ?h ?l = Some [(''name'', ''John Smith''), (''city'', ''Boston'')]"
    by code_simp
  have cd: "column_data ?h (tsv_fields ?l)
      = [(''organization'', ''N/A''), (''first'', ''John''), (''last'', ''Smith''),
         (''city'', ''Boston'')]"
    by code_simp
  have "xml_record ?r = Some [(''name'', ''Jane Doe''), (''zip'', ''12345'')]
      \<and> map_of [(''name'', ''Jane Doe''), (''zip'', ''12345'')] ''name'' = Some ''Jane Doe''"
    using x by simp
  with field_values_not_blank
    [where r = ?r and a = "[(''name'', ''Jane Doe''), (''zip'', ''12345'')]"
       and k = "''name''" and v = "''Jane Doe''"]
  obtain c t0 where c: "c \<in> set (children ?r)" "text_of c = Some t0"
    "\<not> is_blank t0 \<longrightarrow> \<not> is_blank ''Jane Doe''"
    by blast
  from c(1,2) have "t0 = '' Jane Doe '' \<or> t0 = ''12345''" by auto
  then have "\<not> is_blank t0"
    by (auto simp: is_blank_def is_space_def code_point_def)
  with c(3) have 1: "\<not> is_blank ''Jane Doe''" by simp
  have 2: "\<not> is_blank ''Boston''"
    using field_values_not_blank
      [of _ _ "''city''" "''Boston''" ?h ?l "[(''name'', ''John Smith''), (''city'', ''Boston'')]"]
      t by simp
  have 3: "\<not> is_blank ''John Smith''"
    using field_values_not_blank
      [of _ _ "''name''" "''John Smith''" ?h ?l
          "[(''name'', ''John Smith''), (''city'', ''Boston'')]"]
      t cd by simp
  from x t 1 2 3 show ?thesis by simp
qed

section \<open>The acceptance rule of the tabular parser\<close>

lemma has_key_iff_keys: "has_key k a = (k \<in> set (map fst a))"
  by (simp add: has_key_def map_of_eq_None_iff)

lemma distinct_set_field:
  "distinct (map fst d) \<Longrightarrow> distinct (map fst (set_field k v d))"
  by (cases v) (simp_all add: set_field_def distinct_update)

lemma distinct_tsv_identity: "distinct (map fst (tsv_identity cd))"
  using tsv_identity_cases [of cd] by auto

lemma distinct_tsv_address: "distinct (map fst (tsv_address cd))"
  by (simp add: tsv_address_def distinct_set_field distinct_tsv_identity)

lemma length_gt_one_iff_other:
  assumes "distinct xs" and "k \<in> set xs"
  shows "(1 < length xs) = (\<exists>k' \<in> set xs. k' \<noteq> k)"
proof
  assume "1 < length xs"
  then obtain x y zs where xs: "xs = x # y # zs"
    by (cases xs; cases "tl xs") auto
  with assms(1) have "x \<noteq> y" by simp
  then have "x \<noteq> k \<or> y \<noteq> k" by auto
  with xs show "\<exists>k' \<in> set xs. k' \<noteq> k" by auto
next
  assume "\<exists>k' \<in> set xs. k' \<noteq> k"
  then obtain k' where k': "k' \<in> set xs" "k' \<noteq> k" by blast
  show "1 < length xs"
  proof (rule ccontr)
    assume "\<not> 1 < length xs"
    then have "xs = [] \<or> (\<exists>x. xs = [x])"
      by (cases xs; cases "tl xs") auto
    with assms(2) k' show False by auto
  qed
qed

lemma tsv_accept_iff:
  "tsv_accept (tsv_address cd) =
     ((has_key ''name'' (tsv_address cd) \<or> has_key ''organization'' (tsv_address cd))
      \<and> (\<exists>k. has_key k (tsv_address cd) \<and> k \<noteq> ''name'' \<and> k \<noteq> ''organization''))"
proof -
  let ?a = "tsv_address cd"
  have d: "distinct (map fst ?a)" by (rule distinct_tsv_address)
  have ex: "\<not> (has_key ''name'' ?a \<and> has_key ''organization'' ?a)"
    using tsv_address_exclusive [of cd] by (simp add: both_identities_def)
  have len: "(1 < length ?a) = (\<exists>k'. has_key k' ?a \<and> k' \<noteq> k)" if "has_key k ?a" for k
    using length_gt_one_iff_other [OF d, of k] that
    by (auto simp: has_key_iff_keys)
  show ?thesis
  proof (cases "has_key ''name'' ?a")
    case True
    with ex have "\<not> has_key ''organization'' ?a" by simp
    with True len [OF True] show ?thesis
      by (auto simp: tsv_accept_def)
  next
    case False
    show ?thesis
    proof (cases "has_key ''organization'' ?a")
      case True
      with False len [OF True] show ?thesis
        by (auto simp: tsv_accept_def)
    next
      case no: False
      with False show ?thesis by (simp add: tsv_accept_def)
    qed
  qed
qed

text \<open>
  Claim C5.  A data line of a tabular file that is not blank yields a record exactly when
  the record built from it has an identity field (\<^verbatim>\<open>name\<close> or
  \<^verbatim>\<open>organization\<close>) and a field that is not an identity field; a line whose record
  is a name and nothing else yields no record.
\<close>

theorem tsv_row_emitted_iff:
  "(tsv_row header line = Some a) =
     (strip line \<noteq> [] \<and> a = tsv_address (column_data header (tsv_fields line))
      \<and> (has_key ''name'' a \<or> has_key ''organization'' a)
      \<and> (\<exists>k. has_key k a \<and> k \<noteq> ''name'' \<and> k \<noteq> ''organization''))
   \<and> (tsv_address (column_data header (tsv_fields line)) = [(''name'', n)]
        \<longrightarrow> tsv_row header line = None)"
proof
  show "(tsv_row header line = Some a) =
     (strip line \<noteq> [] \<and> a = tsv_address (column_data header (tsv_fields line))
      \<and> (has_key ''name'' a \<or> has_key ''organization'' a)
      \<and> (\<exists>k. has_key k a \<and> k \<noteq> ''name'' \<and> k \<noteq> ''organization''))"
  proof -
    let ?A = "tsv_address (column_data header (tsv_fields line))"
    have "(tsv_row header line = Some a) = (strip line \<noteq> [] \<and> a = ?A \<and> tsv_accept ?A)"
      unfolding tsv_row_def Let_def by (cases "strip line = []"; cases "tsv_accept ?A") auto
    also have "\<dots> = (strip line \<noteq> [] \<and> a = ?A
        \<and> (has_key ''name'' ?A \<or> has_key ''organization'' ?A)
        \<and> (\<exists>k. has_key k ?A \<and> k \<noteq> ''name'' \<and> k \<noteq> ''organization''))"
      by (simp only: tsv_accept_iff)
    also have "\<dots> = (strip line \<noteq> [] \<and> a = ?A
        \<and> (has_key ''name'' a \<or> has_key ''organization'' a)
        \<and> (\<exists>k. has_key k a \<and> k \<noteq> ''name'' \<and> k \<noteq> ''organization''))"
      by blast
    finally show ?thesis .
  qed
  show "tsv_address (column_data header (tsv_fields line)) = [(''name'', n)]
        \<longrightarrow> tsv_row header line = None"
    by (simp add: tsv_row_def Let_def tsv_accept_def)
qed

theorem tsv_row_emitted_iff_witness:
  "tsv_address (column_data [''first'', ''last'', ''city'']
      (tsv_fields (tsv_line [''John'', ''Smith'', []]))) = [(''name'', ''John Smith'')]
   \<and> tsv_row [''first'', ''last'', ''city''] (tsv_line [''John'', ''Smith'', []]) = None
   \<and> parse_tsv_lines ''a.tsv''
        (readlines (tsv_line [''first'', ''last'', ''city'']
                    @ tsv_line [''John'', ''Smith'', []]
                    @ tsv_line [''Jane'', ''Doe'', ''Boston'']))
      = Inr [[(''name'', ''Jane Doe''), (''city'', ''Boston'')]]"
proof -
  let ?h = "[''first'', ''last'', ''city'']"
  let ?l = "tsv_line [''John'', ''Smith'', []]"
  have a: "tsv_address (column_data ?h (tsv_fields ?l)) = [(''name'', ''John Smith'')]"
    by code_simp
  have b: "tsv_row ?h ?l = None"
    using tsv_row_emitted_iff [of ?h ?l _ "''John Smith''"] a by blast
  have c: "parse_tsv_lines ''a.tsv''
        (readlines (tsv_line [''first'', ''last'', ''city'']
                    @ tsv_line [''John'', ''Smith'', []]
                    @ tsv_line [''Jane'', ''Doe'', ''Boston'']))
      = Inr [[(''name'', ''Jane Doe''), (''city'', ''Boston'')]]"
    by code_simp
  from a b c show ?thesis by simp
qed

lemma column_value_eq:
  "map_of cd k = Some v \<Longrightarrow>
   column_value cd k s = (if v \<noteq> [] \<and> v \<noteq> s then Some v else None)"
  by (simp add: column_value_def)

lemma column_value_absent: "map_of cd k = None \<Longrightarrow> column_value cd k s = None"
  by (simp add: column_value_def)

text \<open>
  Claim C6.  A row whose columns give organization \<^verbatim>\<open>N/A\<close>, first \<^verbatim>\<open>John\<close>,
  middle \<^verbatim>\<open>N/M/N\<close>, last \<^verbatim>\<open>Smith\<close>, zip \<^verbatim>\<open>90210\<close> and zip4
  \<^verbatim>\<open>1234\<close>, and no other recognised column, yields exactly the record with name
  \<^verbatim>\<open>John Smith\<close> and zip \<^verbatim>\<open>90210-1234\<close>, and the record is accepted.
\<close>

theorem tsv_scenario_row:
  assumes "map_of cd ''organization'' = Some ''N/A''"
    and "map_of cd ''first'' = Some ''John''"
    and "map_of cd ''middle'' = Some ''N/M/N''"
    and "map_of cd ''last'' = Some ''Smith''"
    and "map_of cd ''zip'' = Some ''90210''"
    and "map_of cd ''zip4'' = Some ''1234''"
    and "map_of cd ''address'' = None \<and> map_of cd ''city'' = None
         \<and> map_of cd ''county'' = None \<and> map_of cd ''state'' = None"
  shows "tsv_address cd = [(''name'', ''John Smith''), (''zip'', ''90210-1234'')]
         \<and> tsv_accept (tsv_address cd)"
proof -
  have i: "tsv_identity cd = [(''name'', ''John Smith'')]"
    using assms(1-4) by (simp add: tsv_identity_def column_value_eq)
  have z: "tsv_zip cd = Some ''90210-1234''"
    using assms(5,6) by (simp add: tsv_zip_def column_value_eq)
  have a: "tsv_address cd = [(''name'', ''John Smith''), (''zip'', ''90210-1234'')]"
    using assms(7) by (simp add: tsv_address_def i z column_value_absent set_field_def)
  then show ?thesis by (simp add: tsv_accept_def has_key_Cons)
qed

theorem tsv_scenario_row_witness:
  "parse_tsv_lines ''a.tsv''
     (readlines (tsv_line [''organization'', ''first'', ''middle'', ''last'', ''zip'', ''zip4'']
                 @ tsv_line [''N/A'', ''John'', ''N/M/N'', ''Smith'', ''90210'', ''1234'']))
   = Inr [[(''name'', ''John Smith''), (''zip'', ''90210-1234'')]]"
proof -
  let ?h = "[''organization'', ''first'', ''middle'', ''last'', ''zip'', ''zip4'']"
  let ?l = "tsv_line [''N/A'', ''John'', ''N/M/N'', ''Smith'', ''90210'', ''1234'']"
  let ?cd = "column_data ?h (tsv_fields ?l)"
  have cd: "?cd = [(''organization'', ''N/A''), (''first'', ''John''), (''middle'', ''N/M/N''),
                   (''last'', ''Smith''), (''zip'', ''90210''), (''zip4'', ''1234'')]"
    by code_simp
  have a: "tsv_address ?cd = [(''name'', ''John Smith''), (''zip'', ''90210-1234'')]
           \<and> tsv_accept (tsv_address ?cd)"
    by (rule tsv_scenario_row) (simp_all add: cd)
  have nb: "strip ?l \<noteq> []" by code_simp
  from a have a1: "tsv_address ?cd = [(''name'', ''John Smith''), (''zip'', ''90210-1234'')]"
    and a2: "tsv_accept (tsv_address ?cd)" by blast+
  have row: "tsv_row ?h ?l = Some [(''name'', ''John Smith''), (''zip'', ''90210-1234'')]"
    unfolding tsv_row_def Let_def using a1 a2 nb by (simp only: if_False if_True)
  have rl: "readlines (tsv_line ?h @ ?l) = [tsv_line ?h, ?l]" by code_simp
  have hd: "tsv_fields (tsv_line ?h) = ?h" by code_simp
  have "parse_tsv_lines ''a.tsv'' [tsv_line ?h, ?l]
      = Inr (List.map_filter (tsv_row (tsv_fields (tsv_line ?h))) [?l])"
    by (simp only: parse_tsv_lines_def list.case)
  also have "\<dots> = Inr [[(''name'', ''John Smith''), (''zip'', ''90210-1234'')]]"
    unfolding hd by (simp only: List.map_filter_simps row option.case)
  finally show ?thesis unfolding rl .
qed

section \<open>Stripping a tabular line\<close>


lemma is_space_newline: "is_space newline"
  by (simp add: is_space_def newline_def code_point_def)

lemma dropWhile_append_all:
  "list_all P pre \<Longrightarrow> dropWhile P (pre @ s) = dropWhile P s"
  by (induction pre) auto

lemma strip_padded:
  assumes "list_all is_space pre" and "list_all is_space post"
    and "body \<noteq> []" and "\<not> is_space (hd body)" and "\<not> is_space (last body)"
  shows "strip (pre @ body @ post) = body"
proof -
  have l: "lstrip (pre @ body @ post) = body @ post"
    using assms(1,3,4) by (cases body) (simp_all add: lstrip_def dropWhile_append_all)
  have "rev (body @ post) = rev post @ rev body" by simp
  moreover have "list_all is_space (rev post)" using assms(2) by (simp add: list_all_iff)
  ultimately have "dropWhile is_space (rev (body @ post)) = dropWhile is_space (rev body)"
    by (simp only: dropWhile_append_all)
  also have "\<dots> = rev body"
    using assms(3,5) by (cases "rev body") (auto simp: last_rev hd_rev)
  finally show ?thesis by (simp add: strip_def l rstrip_def)
qed

lemma split_on_leading: "split_on c (replicate k c @ s) = replicate k [] @ split_on c s"
  by (induction k) simp_all

lemma split_on_not_Nil: "split_on c s \<noteq> []"
  by (induction s) (auto split: list.splits)

lemma split_on_trailing: "split_on c (s @ replicate m c) = split_on c s @ replicate m []"
proof (induction s)
  case Nil
  have "split_on c (replicate m c) = replicate m [] @ [[]]"
    using split_on_leading [of c m "[]"] by simp
  also have "\<dots> = [] # replicate m []" by (simp add: replicate_append_same)
  finally show ?case by simp
next
  case (Cons x s)
  then show ?case
    using split_on_not_Nil [of c s] by (cases "split_on c s") auto
qed






















section \<open>The location line of a free-text paragraph\<close>

lemma in_many_iff:
  "((t, r) \<in> set (many p m s)) =
     (\<exists>k. m \<le> k \<and> k \<le> length (takeWhile p s) \<and> t = take k s \<and> r = drop k s)"
  by (auto simp: many_def Let_def)

lemma take_takeWhile_all:
  "k \<le> length (takeWhile p s) \<Longrightarrow> list_all p (take k s)"
proof -
  assume k: "k \<le> length (takeWhile p s)"
  have "take k (takeWhile p s @ dropWhile p s) = take k (takeWhile p s)"
    using k by (simp del: takeWhile_dropWhile_id)
  then have "take k s = take k (takeWhile p s)"
    unfolding takeWhile_dropWhile_id .
  moreover have "list_all p (take k (takeWhile p s))"
    by (auto simp: list_all_iff dest: in_set_takeD set_takeWhileD)
  ultimately show ?thesis by simp
qed

lemma many_D:
  assumes "(t, r) \<in> set (many p m s)"
  shows "s = t @ r \<and> list_all p t \<and> m \<le> length t"
proof -
  from assms obtain k where k: "m \<le> k" "k \<le> length (takeWhile p s)"
    "t = take k s" "r = drop k s"
    by (auto simp: in_many_iff)
  have "length (takeWhile p s) \<le> length s" by (rule length_takeWhile_le)
  with k show ?thesis by (simp add: take_takeWhile_all min_def)
qed

lemma exactly_D:
  "(t, r) \<in> set (exactly p m s) \<Longrightarrow> s = t @ r \<and> list_all p t \<and> length t = m"
  by (auto simp: exactly_def split: if_splits)

lemma lit_D: "r \<in> set (lit c s) \<Longrightarrow> s = c # r"
  by (auto simp: lit_def split: list.splits if_splits)

lemma zip_pat_D:
  assumes "(z, r) \<in> set (zip_pat s)"
  shows "s = z @ r \<and> zip_shaped z"
proof -
  from assms obtain d5 r5 where d5: "(d5, r5) \<in> set (exactly is_digit 5 s)"
    and alt: "(z, r) = (d5, r5) \<or>
      (\<exists>r1 d4. r1 \<in> set (lit CHR ''-'' r5) \<and> (d4, r) \<in> set (exactly is_digit 4 r1)
         \<and> z = d5 @ ''-'' @ d4)"
    by (auto simp: zip_pat_def)
  from exactly_D [OF d5] have s: "s = d5 @ r5" "list_all is_digit d5" "length d5 = 5" by auto
  from alt show ?thesis
  proof
    assume "(z, r) = (d5, r5)"
    with s show ?thesis by (simp add: zip_shaped_def)
  next
    assume "\<exists>r1 d4. r1 \<in> set (lit CHR ''-'' r5) \<and> (d4, r) \<in> set (exactly is_digit 4 r1)
         \<and> z = d5 @ ''-'' @ d4"
    then obtain r1 d4 where r1: "r1 \<in> set (lit CHR ''-'' r5)"
      and d4: "(d4, r) \<in> set (exactly is_digit 4 r1)" and z: "z = d5 @ ''-'' @ d4"
      by blast
    from lit_D [OF r1] exactly_D [OF d4] s z show ?thesis
      by (simp add: zip_shaped_def nth_append)
  qed
qed

lemma state_pat_D:
  "(st, r) \<in> set (state_pat s) \<Longrightarrow> s = st @ r \<and> list_all is_alpha st \<and> st \<noteq> []"
  by (auto simp: state_pat_def dest!: exactly_D many_D)

lemma county_pat_D:
  assumes "(g2, r) \<in> set (county_pat s)"
  shows "(g2 = None \<and> r = s) \<or>
     (\<exists>c w. g2 = Some c \<and> s = c @ '','' @ w @ r \<and> c \<noteq> [] \<and> list_all not_comma c
        \<and> list_all is_space w)"
proof -
  from assms have "(g2, r) = (None, s) \<or>
      (\<exists>c r1 r2 w. (c, r1) \<in> set (many not_comma 1 s) \<and> r2 \<in> set (lit CHR '','' r1)
          \<and> (w, r) \<in> set (many is_space 0 r2) \<and> g2 = Some c)"
    by (auto simp: county_pat_def)
  then show ?thesis
  proof
    assume "(g2, r) = (None, s)"
    then show ?thesis by simp
  next
    assume "\<exists>c r1 r2 w. (c, r1) \<in> set (many not_comma 1 s) \<and> r2 \<in> set (lit CHR '','' r1)
          \<and> (w, r) \<in> set (many is_space 0 r2) \<and> g2 = Some c"
    then obtain c r1 r2 w where c: "(c, r1) \<in> set (many not_comma 1 s)"
      and r2: "r2 \<in> set (lit CHR '','' r1)" and w: "(w, r) \<in> set (many is_space 0 r2)"
      and g2: "g2 = Some c"
      by blast
    from many_D [OF c] lit_D [OF r2] many_D [OF w] g2 show ?thesis
      by auto
  qed
qed

lemma location_tail_D:
  assumes "t \<in> set (location_tail r)"
  shows "tail_shape r t"
proof -
  obtain g2 g3 g4 where t: "t = (g2, g3, g4)" by (cases t)
  from assms t obtain w1 r3 r4 r5 w2 r6 r7 where
    w1: "(w1, r3) \<in> set (many is_space 0 r)" and
    c: "(g2, r4) \<in> set (county_pat r3)" and
    st: "(g3, r5) \<in> set (state_pat r4)" and
    w2: "(w2, r6) \<in> set (many is_space 1 r5)" and
    z: "(g4, r7) \<in> set (zip_pat r6)"
    by (auto simp: location_tail_def)
  note facts = many_D [OF w1] state_pat_D [OF st] many_D [OF w2] zip_pat_D [OF z]
  from county_pat_D [OF c] show ?thesis
  proof
    assume "g2 = None \<and> r4 = r3"
    with facts show ?thesis
      unfolding tail_shape_def t prod.case
      by (rule_tac x = w1 in exI, rule_tac x = "[]" in exI, rule_tac x = w2 in exI,
          rule_tac x = r7 in exI) auto
  next
    assume "\<exists>c w. g2 = Some c \<and> r3 = c @ '','' @ w @ r4 \<and> c \<noteq> [] \<and> list_all not_comma c
        \<and> list_all is_space w"
    then obtain c w where g2: "g2 = Some c" and r3: "r3 = c @ '','' @ w @ r4"
      and cw: "c \<noteq> []" "list_all not_comma c" "list_all is_space w"
      by blast
    with facts show ?thesis
      unfolding tail_shape_def t prod.case
      by (rule_tac x = w1 in exI, rule_tac x = "c @ '','' @ w" in exI, rule_tac x = w2 in exI,
          rule_tac x = r7 in exI) auto
  qed
qed

lemma in_location_match_at_iff:
  "((g1, t) \<in> set (location_match_at s)) =
     (\<exists>r1 r2. (g1, r1) \<in> set (many not_comma 1 s) \<and> r2 \<in> set (lit CHR '','' r1)
        \<and> t \<in> set (location_tail r2))"
proof
  assume "(g1, t) \<in> set (location_match_at s)"
  then show "\<exists>r1 r2. (g1, r1) \<in> set (many not_comma 1 s) \<and> r2 \<in> set (lit CHR '','' r1)
        \<and> t \<in> set (location_tail r2)"
    by (auto simp: location_match_at_def)
next
  assume "\<exists>r1 r2. (g1, r1) \<in> set (many not_comma 1 s) \<and> r2 \<in> set (lit CHR '','' r1)
        \<and> t \<in> set (location_tail r2)"
  then obtain r1 r2 where "(g1, r1) \<in> set (many not_comma 1 s)" "r2 \<in> set (lit CHR '','' r1)"
    "t \<in> set (location_tail r2)"
    by blast
  then show "(g1, t) \<in> set (location_match_at s)"
    unfolding location_match_at_def
    by (auto intro!: bexI [of _ "(g1, r1)"] bexI [of _ r2])
qed

lemma takeWhile_is_prefix:
  assumes "list_all p t" and "\<not> p c"
  shows "takeWhile p (t @ c # r) = t"
  using assms by (induction t) auto

lemma location_match_at_D:
  assumes "(g1, t) \<in> set (location_match_at s)"
  shows "\<exists>r. s = g1 @ '','' @ r \<and> g1 \<noteq> [] \<and> g1 = takeWhile not_comma s \<and> tail_shape r t"
proof -
  from assms obtain r1 r2 where g1: "(g1, r1) \<in> set (many not_comma 1 s)"
    and r2: "r2 \<in> set (lit CHR '','' r1)" and t: "t \<in> set (location_tail r2)"
    by (auto simp: in_location_match_at_iff)
  from many_D [OF g1] lit_D [OF r2] have s: "s = g1 @ CHR '','' # r2"
    and a: "list_all not_comma g1" and n: "g1 \<noteq> []"
    by auto
  have "takeWhile not_comma s = g1"
    unfolding s using a by (rule takeWhile_is_prefix) (simp add: not_comma_def)
  with s n location_tail_D [OF t] show ?thesis by auto
qed

lemma location_match_at_extend:
  assumes "location_match_at s \<noteq> []" and "not_comma x"
  shows "location_match_at (x # s) \<noteq> []"
proof -
  from assms(1) obtain g1 t where "(g1, t) \<in> set (location_match_at s)"
    by (cases "location_match_at s") auto
  then obtain r1 r2 where g1: "(g1, r1) \<in> set (many not_comma 1 s)"
    and r2: "r2 \<in> set (lit CHR '','' r1)" and t: "t \<in> set (location_tail r2)"
    by (auto simp: in_location_match_at_iff)
  from g1 obtain k where k: "1 \<le> k" "k \<le> length (takeWhile not_comma s)"
    "g1 = take k s" "r1 = drop k s"
    by (auto simp: in_many_iff)
  have "(x # g1, r1) \<in> set (many not_comma 1 (x # s))"
    unfolding in_many_iff using k assms(2) by (intro exI [of _ "Suc k"]) simp
  with r2 t have "(x # g1, t) \<in> set (location_match_at (x # s))"
    by (auto simp: in_location_match_at_iff)
  then show ?thesis by auto
qed

lemma location_search_D:
  "location_search s = Some m \<Longrightarrow>
   \<exists>pre suf. s = pre @ suf \<and> m \<in> set (location_match_at suf)
     \<and> (pre = [] \<or> last pre = CHR '','')"
proof (induction s)
  case Nil
  then show ?case
    by (auto simp: location_search.simps [of "[]"] split: list.splits)
next
  case (Cons x s)
  show ?case
  proof (cases "location_match_at (x # s)")
    case (Cons m' ms)
    with Cons.prems have "m = m'" by (simp add: location_search.simps [of "x # s"])
    with Cons have "m \<in> set (location_match_at (x # s))" by simp
    then show ?thesis by (intro exI [of _ "[]"] exI [of _ "x # s"]) simp
  next
    case Nil
    with Cons.prems have "location_search s = Some m"
      by (simp add: location_search.simps [of "x # s"])
    from Cons.IH [OF this] obtain pre suf where ps: "s = pre @ suf"
      "m \<in> set (location_match_at suf)" "pre = [] \<or> last pre = CHR '',''"
      by blast
    have "x # pre = [] \<or> last (x # pre) = CHR '',''"
    proof (cases "pre = []")
      case True
      with ps have "location_match_at s \<noteq> []" by auto
      with Nil location_match_at_extend [of s x] have "\<not> not_comma x" by auto
      with True show ?thesis by (simp add: not_comma_def)
    next
      case False
      with ps(3) show ?thesis by simp
    qed
    with ps show ?thesis by (intro exI [of _ "x # pre"] exI [of _ suf]) simp
  qed
qed

lemma location_search_None_iff:
  "(location_search s = None) = (\<forall>i \<le> length s. location_match_at (drop i s) = [])"
proof (induction s)
  case Nil
  show ?case by (auto simp: location_search.simps [of "[]"] split: list.splits)
next
  case (Cons x s)
  have "(\<forall>i \<le> length (x # s). location_match_at (drop i (x # s)) = []) =
      (location_match_at (x # s) = [] \<and> (\<forall>i \<le> length s. location_match_at (drop i s) = []))"
    (is "?L = ?R")
  proof
    assume l: ?L
    then have "location_match_at (drop 0 (x # s)) = []" by blast
    moreover have "location_match_at (drop i s) = []" if "i \<le> length s" for i
      using l that by (auto dest!: spec [of _ "Suc i"])
    ultimately show ?R by simp
  next
    assume r: ?R
    show ?L
    proof (intro allI impI)
      fix i assume "i \<le> length (x # s)"
      with r show "location_match_at (drop i (x # s)) = []" by (cases i) auto
    qed
  qed
  with Cons show ?case
    by (simp add: location_search.simps [of "x # s"] split: list.splits)
qed

lemma strip_unpadded:
  "s \<noteq> [] \<Longrightarrow> \<not> is_space (hd s) \<Longrightarrow> \<not> is_space (last s) \<Longrightarrow> strip s = s"
  using strip_padded [of "[]" "[]" s] by simp

lemma is_alpha_not_space: "is_alpha c \<Longrightarrow> \<not> is_space c"
  by (auto simp: is_alpha_def is_space_def Let_def)

lemma is_digit_not_space: "is_digit c \<Longrightarrow> \<not> is_space c"
  by (auto simp: is_digit_def is_space_def Let_def)

lemma strip_alpha: "s \<noteq> [] \<Longrightarrow> list_all is_alpha s \<Longrightarrow> strip s = s"
  by (rule strip_unpadded) (auto simp: list_all_iff intro!: is_alpha_not_space)

lemma strip_zip_shaped:
  assumes "zip_shaped z"
  shows "strip z = z"
proof (rule strip_unpadded)
  from assms have len: "length z = 5 \<or> length z = 10" by (auto simp: zip_shaped_def)
  then show "z \<noteq> []" by auto
  from assms len have "is_digit (hd z)"
    by (cases z) (auto simp: zip_shaped_def)
  then show "\<not> is_space (hd z)" by (rule is_digit_not_space)
  have "is_digit (last z)"
  proof (cases "length z = 5")
    case True
    with assms have "list_all is_digit z" by (simp add: zip_shaped_def)
    with True show ?thesis by (cases z rule: rev_cases) auto
  next
    case False
    with assms have l: "length z = 10" and d: "list_all is_digit (drop 6 z)"
      by (auto simp: zip_shaped_def)
    then have "drop 6 z \<noteq> []" by simp
    with d have "is_digit (last (drop 6 z))"
      by (cases "drop 6 z" rule: rev_cases) auto
    with l show ?thesis by (simp add: last_drop)
  qed
  then show "\<not> is_space (last z)" by (rule is_digit_not_space)
qed

lemma map_of_txt_location:
  "map_of (txt_location l d) k =
     (case location_search l of
        None \<Rightarrow> map_of d k
      | Some (g1, g2, g3, g4) \<Rightarrow>
          if k = ''zip'' then Some (strip g4)
          else if k = ''state'' then Some (strip g3)
          else if k = ''county'' \<and> g2 \<noteq> None \<and> g2 \<noteq> Some [] then map_option strip g2
          else if k = ''city'' then Some (strip g1)
          else map_of d k)"
  by (auto simp: txt_location_def update_conv' split: option.splits)

lemma location_search_shape:
  assumes "location_search l = Some (g1, g2, g3, g4)"
  shows "\<exists>pre r. l = pre @ g1 @ '','' @ r \<and> (pre = [] \<or> last pre = CHR '','')
           \<and> g1 \<noteq> [] \<and> list_all not_comma g1 \<and> tail_shape r (g2, g3, g4)"
proof -
  from location_search_D [OF assms] obtain pre suf where l: "l = pre @ suf"
    and m: "(g1, g2, g3, g4) \<in> set (location_match_at suf)"
    and p: "pre = [] \<or> last pre = CHR '',''"
    by blast
  from location_match_at_D [OF m] obtain r where r: "suf = g1 @ '','' @ r" "g1 \<noteq> []"
    "g1 = takeWhile not_comma suf" "tail_shape r (g2, g3, g4)"
    by blast
  have "list_all not_comma (takeWhile not_comma suf)"
    by (auto simp: list_all_iff dest: set_takeWhileD)
  with r(3) have "list_all not_comma g1" by simp
  with l p r show ?thesis by blast
qed

text \<open>
  Claim C8, as amended.  For a paragraph of at least three lines, the fields city, county,
  state and zip of its record depend on the last line alone, through the location pattern.
  When the pattern does not occur in the last line, none of the four is set.  When it
  occurs, city is the stripped text of the first group, which is a whole stretch without a
  comma that ends at a comma and begins at the start of the line or right after an earlier
  comma: the text before the first comma when the match starts at the start of the line,
  a later stretch otherwise.  County, when present, is the stripped text between that
  comma and the next one; state is a non-empty word of letters; zip is five digits,
  optionally followed by a hyphen and four digits.  The paragraph of the scenario yields
  the record the claim gives.
\<close>

theorem txt_location_fields:
  assumes "3 \<le> length lines" and "txt_address lines = Some a"
  shows "list_all (\<lambda>k. map_of a k = map_of (txt_location (last lines) []) k) location_keys
    \<and> (location_search (last lines) = None \<longrightarrow>
         list_all (\<lambda>k. \<not> has_key k a) location_keys)
    \<and> (\<forall>g1 g2 g3 g4. location_search (last lines) = Some (g1, g2, g3, g4) \<longrightarrow>
         map_of a ''city'' = Some (strip g1) \<and> map_of a ''county'' = map_option strip g2
         \<and> map_of a ''state'' = Some g3 \<and> map_of a ''zip'' = Some g4
         \<and> (\<exists>pre r. last lines = pre @ g1 @ '','' @ r \<and> (pre = [] \<or> last pre = CHR '','')
               \<and> g1 \<noteq> [] \<and> list_all not_comma g1 \<and> tail_shape r (g2, g3, g4)))
    \<and> parse_txt_content (''Acme Inc.'' @ [newline] @ ''123 Main St'' @ [newline]
          @ ''Springfield, IL 62704'')
       = [[(''organization'', ''Acme Inc.''), (''street'', ''123 Main St''),
           (''city'', ''Springfield''), (''state'', ''IL''), (''zip'', ''62704'')]]"
proof -
  from assms(1) obtain l1 l2 more where lines: "lines = l1 # l2 # more" and more: "more \<noteq> []"
    by (cases lines; cases "tl lines"; cases "tl (tl lines)") auto
  define a2 :: address where
    "a2 = AList.update ''street'' l2
            (if is_organization l1 then AList.update ''organization'' l1 []
             else AList.update ''name'' l1 [])"
  from assms lines have a: "a = txt_location (last lines) a2"
    by (auto simp: txt_address_def Let_def a2_def)
  have a2: "map_of a2 k = None" if "k \<in> set location_keys" for k
    using that by (auto simp: a2_def location_keys_def update_conv')
  have 1: "list_all (\<lambda>k. map_of a k = map_of (txt_location (last lines) []) k) location_keys"
    unfolding list_all_iff
  proof
    fix k assume "k \<in> set location_keys"
    from a2 [OF this] show "map_of a k = map_of (txt_location (last lines) []) k"
      by (simp add: a map_of_txt_location split: option.splits)
  qed
  have 2: "list_all (\<lambda>k. \<not> has_key k a) location_keys"
    if "location_search (last lines) = None"
    unfolding list_all_iff
  proof
    fix k assume "k \<in> set location_keys"
    from a2 [OF this] that show "\<not> has_key k a"
      by (simp add: a map_of_txt_location has_key_def)
  qed
  have 3: "map_of a ''city'' = Some (strip g1) \<and> map_of a ''county'' = map_option strip g2
         \<and> map_of a ''state'' = Some g3 \<and> map_of a ''zip'' = Some g4
         \<and> (\<exists>pre r. last lines = pre @ g1 @ '','' @ r \<and> (pre = [] \<or> last pre = CHR '','')
               \<and> g1 \<noteq> [] \<and> list_all not_comma g1 \<and> tail_shape r (g2, g3, g4))"
    if s: "location_search (last lines) = Some (g1, g2, g3, g4)" for g1 g2 g3 g4
  proof -
    from location_search_shape [OF s] obtain pre r where
      sh: "last lines = pre @ g1 @ '','' @ r" "pre = [] \<or> last pre = CHR '',''"
        "g1 \<noteq> []" "list_all not_comma g1" "tail_shape r (g2, g3, g4)"
      by blast
    from sh(5) have g3: "g3 \<noteq> []" "list_all is_alpha g3" and g4: "zip_shaped g4"
      and g2: "g2 \<noteq> Some []"
      by (auto simp: tail_shape_def)
    have c: "map_of a2 ''county'' = None"
      by (rule a2) (simp add: location_keys_def)
    have "map_of a ''county'' = map_option strip g2"
      using s g2 c by (cases g2) (simp_all add: a map_of_txt_location)
    moreover have "map_of a ''city'' = Some (strip g1)"
      using s by (simp add: a map_of_txt_location)
    moreover have "map_of a ''state'' = Some g3"
      using s g3 by (simp add: a map_of_txt_location strip_alpha)
    moreover have "map_of a ''zip'' = Some g4"
      using s g4 by (simp add: a map_of_txt_location strip_zip_shaped)
    ultimately show ?thesis using sh by blast
  qed
  have 4: "parse_txt_content (''Acme Inc.'' @ [newline] @ ''123 Main St'' @ [newline]
          @ ''Springfield, IL 62704'')
       = [[(''organization'', ''Acme Inc.''), (''street'', ''123 Main St''),
           (''city'', ''Springfield''), (''state'', ''IL''), (''zip'', ''62704'')]]"
    by code_simp
  from 1 2 3 4 show ?thesis by blast
qed

text \<open>
  The claim as stated fails on a last line with three commas: the pattern first occurs
  after the first comma, and city is not the text before the first comma.
\<close>

theorem city_after_first_comma_counterexample:
  "parse_txt_content (''A Name'' @ [newline] @ ''1 Main St'' @ [newline] @ ''A, B, C, ST 12345'')
     = [[(''name'', ''A Name''), (''street'', ''1 Main St''), (''city'', ''B''),
         (''county'', ''C''), (''state'', ''ST''), (''zip'', ''12345'')]]
   \<and> takeWhile not_comma ''A, B, C, ST 12345'' = ''A''"
  by code_simp

theorem txt_location_fields_witness:
  "txt_address [''Acme Inc.'', ''123 Main St'', ''Springfield, IL 62704'']
     = Some [(''organization'', ''Acme Inc.''), (''street'', ''123 Main St''),
             (''city'', ''Springfield''), (''state'', ''IL''), (''zip'', ''62704'')]
   \<and> location_search ''Springfield, IL 62704'' = Some (''Springfield'', None, ''IL'', ''62704'')
   \<and> map_of [(''organization'', ''Acme Inc.''), (''street'', ''123 Main St''),
             (''city'', ''Springfield''), (''state'', ''IL''), (''zip'', ''62704'')] ''city''
       = Some (strip ''Springfield'')
   \<and> txt_address [''Jane Doe'', ''1 Elm St'', ''no location here'']
     = Some [(''name'', ''Jane Doe''), (''street'', ''1 Elm St'')]
   \<and> location_search ''no location here'' = None
   \<and> list_all (\<lambda>k. \<not> has_key k [(''name'', ''Jane Doe''), (''street'', ''1 Elm St'')])
        location_keys"
proof -
  let ?l = "[''Acme Inc.'', ''123 Main St'', ''Springfield, IL 62704'']"
  let ?a = "[(''organization'', ''Acme Inc.''), (''street'', ''123 Main St''),
             (''city'', ''Springfield''), (''state'', ''IL''), (''zip'', ''62704'')]"
  let ?l' = "[''Jane Doe'', ''1 Elm St'', ''no location here'']"
  let ?a' = "[(''name'', ''Jane Doe''), (''street'', ''1 Elm St'')]"
  have len: "3 \<le> length ?l" "3 \<le> length ?l'" by simp_all
  have a: "txt_address ?l = Some ?a" by code_simp
  have a': "txt_address ?l' = Some ?a'" by code_simp
  have s: "location_search (last ?l) = Some (''Springfield'', None, ''IL'', ''62704'')"
    by code_simp
  have s': "location_search (last ?l') = None" by code_simp
  from txt_location_fields [OF len(1) a] s
  have 1: "map_of ?a ''city'' = Some (strip ''Springfield'')" by blast
  from txt_location_fields [OF len(2) a'] s'
  have 2: "list_all (\<lambda>k. \<not> has_key k ?a') location_keys" by blast
  from s s' have "location_search ''Springfield, IL 62704''
      = Some (''Springfield'', None, ''IL'', ''62704'')"
    and "location_search ''no location here'' = None"
    by simp_all
  with a a' 1 2 show ?thesis by blast
qed

section \<open>Paragraphs and records of the free-text parser\<close>

lemma count_starts_skip_blank:
  "count_starts True ls = count_starts True (dropWhile is_blank ls)"
  by (induction ls) auto

lemma count_starts_skip_run:
  "count_starts False ls = count_starts True (dropWhile (\<lambda>x. \<not> is_blank x) ls)"
  by (induction ls) auto

lemma length_paragraphs: "length (paragraphs ls) = count_starts True ls"
proof (induction ls rule: paragraphs.induct)
  case (1 ls)
  show ?case
  proof (cases "dropWhile is_blank ls")
    case Nil
    have "paragraphs ls = []"
      by (subst paragraphs.simps) (simp only: Nil list.case)
    moreover have "count_starts True ls = 0"
      using count_starts_skip_blank [of ls] unfolding Nil by simp
    ultimately show ?thesis by simp
  next
    case (Cons l rest)
    then have nb: "\<not> is_blank l" using hd_dropWhile [of is_blank ls] by auto
    have "length (paragraphs ls)
        = Suc (length (paragraphs (dropWhile (\<lambda>x. \<not> is_blank x) rest)))"
      using Cons by (simp add: paragraphs.simps [of ls])
    also have "\<dots> = Suc (count_starts True (dropWhile (\<lambda>x. \<not> is_blank x) rest))"
      using "1.IH" [OF Cons] by simp
    also have "\<dots> = Suc (count_starts False rest)"
      by (simp add: count_starts_skip_run)
    also have "\<dots> = count_starts True (l # rest)" using nb by simp
    also have "\<dots> = count_starts True ls"
      using Cons count_starts_skip_blank [of ls] by simp
    finally show ?thesis .
  qed
qed

lemma starts_from_Nil: "starts_from pb nb [] = 0"
  by (simp add: starts_from_def is_blank_def)

lemma starts_from_newline: "starts_from pb nb (newline # cs) = starts_from (\<not> nb) False cs"
  using split_on_not_Nil [of newline cs]
  by (cases "split_on newline cs") (auto simp: starts_from_def is_blank_def)

lemma starts_from_space:
  "is_space c \<Longrightarrow> c \<noteq> newline \<Longrightarrow> starts_from pb nb (c # cs) = starts_from pb nb cs"
  using split_on_not_Nil [of newline cs]
  by (cases "split_on newline cs") (auto simp: starts_from_def is_blank_def)

lemma starts_from_char:
  "\<not> is_space c \<Longrightarrow>
   starts_from pb nb (c # cs) = (if pb \<and> \<not> nb then 1 else 0) + starts_from pb True cs"
proof -
  assume c: "\<not> is_space c"
  then have "c \<noteq> newline" by (auto simp: is_space_newline)
  with c show ?thesis
    using split_on_not_Nil [of newline cs]
    by (cases "split_on newline cs") (auto simp: starts_from_def is_blank_def)
qed

lemma paragraph_count_starts_from: "paragraph_count s = starts_from True False s"
  using split_on_not_Nil [of newline s]
  by (cases "split_on newline s")
     (auto simp: paragraph_count_def length_paragraphs starts_from_def)

lemma re_split_blank_not_Nil: "re_split_blank s \<noteq> []"
  by (induction s rule: re_split_blank.induct) (auto split: option.splits list.splits)

lemma pieces_from_Nil: "pieces_from cb [] = (if cb then 1 else 0)"
  by (simp add: pieces_from_def is_blank_def)

lemma pieces_from_False: "pieces_from False s = length (filter (\<lambda>r. \<not> is_blank r) (re_split_blank s))"
  using re_split_blank_not_Nil [of s]
  by (cases "re_split_blank s") (auto simp: pieces_from_def)

lemma pieces_from_sep:
  "blank_sep cs = Some n \<Longrightarrow>
   pieces_from cb (newline # cs) = (if cb then 1 else 0) + pieces_from False (drop n cs)"
  by (simp add: pieces_from_def [of cb] pieces_from_False is_blank_def)

lemma pieces_from_step:
  assumes "c = newline \<longrightarrow> blank_sep cs = None"
  shows "pieces_from cb (c # cs) = pieces_from (cb \<or> \<not> is_space c) cs"
proof -
  have "(if c = newline then blank_sep cs else None) = None" using assms by auto
  then have "re_split_blank (c # cs) =
      (case re_split_blank cs of [] \<Rightarrow> [[c]] | p # ps \<Rightarrow> (c # p) # ps)"
    by simp
  then show ?thesis
    using re_split_blank_not_Nil [of cs]
    by (cases "re_split_blank cs") (auto simp: pieces_from_def is_blank_def)
qed

lemma blank_sep_Some:
  assumes "blank_sep cs = Some n"
  shows "0 < n \<and> n \<le> length cs \<and> list_all is_space (take n cs) \<and> last (take n cs) = newline"
proof -
  let ?ws = "takeWhile is_space cs"
  let ?d = "dropWhile (\<lambda>c. c \<noteq> newline) (rev ?ws)"
  from assms have n: "n = length ?d" "0 < n"
    by (auto simp: blank_sep_def Let_def split: if_splits)
  have "length ?d \<le> length (rev ?ws)" by (rule length_dropWhile_le)
  then have le: "n \<le> length ?ws" using n by simp
  have "length ?ws \<le> length cs" by (rule length_takeWhile_le)
  with le have le': "n \<le> length cs" by simp
  have sp: "list_all is_space (take n cs)" using le by (rule take_takeWhile_all)
  have "take n (?ws @ dropWhile is_space cs) = take n ?ws"
    using le by (simp del: takeWhile_dropWhile_id)
  then have t: "take n cs = take n ?ws" unfolding takeWhile_dropWhile_id .
  have "rev ?ws = takeWhile (\<lambda>c. c \<noteq> newline) (rev ?ws) @ ?d" by simp
  then have "?ws = rev ?d @ rev (takeWhile (\<lambda>c. c \<noteq> newline) (rev ?ws))"
    by (metis rev_append rev_rev_ident)
  then have "take n ?ws = take n (rev ?d @ rev (takeWhile (\<lambda>c. c \<noteq> newline) (rev ?ws)))"
    by simp
  also have "\<dots> = rev ?d" using n by simp
  finally have tw: "take n ?ws = rev ?d" .
  from n have ne: "?d \<noteq> []" by auto
  then have "hd ?d = newline" using hd_dropWhile [of "\<lambda>c. c \<noteq> newline" "rev ?ws"] by auto
  with ne have "last (rev ?d) = newline" by (simp add: last_rev)
  with t tw n le' sp show ?thesis by simp
qed

lemma blank_sep_None:
  assumes "blank_sep cs = None"
  shows "newline \<notin> set (takeWhile is_space cs)"
proof -
  from assms have "dropWhile (\<lambda>c. c \<noteq> newline) (rev (takeWhile is_space cs)) = []"
    by (auto simp: blank_sep_def Let_def split: if_splits)
  then show ?thesis by (auto simp: dropWhile_eq_Nil_conv)
qed

lemma starts_from_sep:
  "list_all is_space w \<Longrightarrow> w \<noteq> [] \<Longrightarrow> last w = newline \<Longrightarrow>
   starts_from pb False (w @ r) = starts_from True False r"
proof (induction w arbitrary: pb)
  case Nil
  then show ?case by simp
next
  case (Cons c w)
  show ?case
  proof (cases "w = []")
    case True
    with Cons.prems show ?thesis by (simp add: starts_from_newline)
  next
    case False
    with Cons.prems have w: "list_all is_space w" "last w = newline" and c: "is_space c"
      by auto
    show ?thesis
    proof (cases "c = newline")
      case True
      then show ?thesis
        using Cons.IH [OF w(1) False w(2)] by (simp add: starts_from_newline)
    next
      case nn: False
      then show ?thesis
        using Cons.IH [OF w(1) False w(2)] c by (simp add: starts_from_space)
    qed
  qed
qed

lemma starts_from_ws:
  "list_all is_space w \<Longrightarrow> newline \<notin> set w \<Longrightarrow>
   starts_from pb nb (w @ r) = starts_from pb nb r"
  by (induction w) (auto simp: starts_from_space)

lemma pieces_from_ws:
  "list_all is_space w \<Longrightarrow> newline \<notin> set w \<Longrightarrow> pieces_from cb (w @ r) = pieces_from cb r"
  by (induction w) (auto simp: pieces_from_step)

lemma pieces_starts:
  "pieces_from False s = starts_from True False s
   \<and> (\<forall>pb. pieces_from True s = 1 + starts_from pb True s)"
proof (induction "length s" arbitrary: s rule: less_induct)
  case less
  show ?case
  proof (cases s)
    case Nil
    then show ?thesis by (simp add: pieces_from_Nil starts_from_Nil)
  next
    case (Cons c cs)
    have ih: "pieces_from False t = starts_from True False t"
      "pieces_from True t = 1 + starts_from pb True t" if "length t \<le> length cs" for t pb
      using less [of t] that Cons by auto
    show ?thesis
    proof (cases "c = newline")
      case nl: True
      show ?thesis
      proof (cases "blank_sep cs")
        case (Some n)
        from blank_sep_Some [OF Some] have w: "list_all is_space (take n cs)"
          "take n cs \<noteq> []" "last (take n cs) = newline"
          by auto
        have "starts_from pb False cs = starts_from True False (drop n cs)" for pb
          using starts_from_sep [OF w, of pb "drop n cs"] by simp
        moreover have "pieces_from False (drop n cs) = starts_from True False (drop n cs)"
          by (rule ih) simp
        ultimately show ?thesis
          unfolding Cons nl by (simp add: pieces_from_sep [OF Some] starts_from_newline)
      next
        case None
        let ?ws = "takeWhile is_space cs"
        let ?r = "dropWhile is_space cs"
        have cs: "cs = ?ws @ ?r" by simp
        have ws: "list_all is_space ?ws" "newline \<notin> set ?ws"
          using blank_sep_None [OF None] by (auto simp: list_all_iff dest: set_takeWhileD)
        have p: "pieces_from True cs = pieces_from True ?r"
          using pieces_from_ws [OF ws, of True ?r] by simp
        have q: "starts_from False False cs = starts_from False False ?r"
          using starts_from_ws [OF ws, of False False ?r] by simp
        have len: "length ?r \<le> length cs" by (rule length_dropWhile_le)
        have t: "pieces_from True cs = 1 + starts_from False False cs"
        proof (cases ?r)
          case Nil
          with p q show ?thesis by (simp add: pieces_from_Nil starts_from_Nil)
        next
          case r: (Cons x r')
          then have x: "\<not> is_space x" using hd_dropWhile [of is_space cs] by auto
          then have xn: "x \<noteq> newline" by (auto simp: is_space_newline)
          from r len have "length r' \<le> length cs" by simp
          then have "pieces_from True r' = 1 + starts_from False True r'" by (rule ih)
          with p q r x xn show ?thesis
            by (simp add: pieces_from_step starts_from_char)
        qed
        have f: "pieces_from False cs = starts_from True False cs" by (rule ih) simp
        from t f show ?thesis
          unfolding Cons nl by (simp add: pieces_from_step None starts_from_newline is_space_newline)
      qed
    next
      case nn: False
      have 1: "pieces_from cb (c # cs) = pieces_from (cb \<or> \<not> is_space c) cs" for cb
        using nn by (simp add: pieces_from_step)
      have f: "pieces_from False cs = starts_from True False cs" by (rule ih) simp
      have t: "pieces_from True cs = 1 + starts_from pb True cs" for pb by (rule ih) simp
      show ?thesis
      proof (cases "is_space c")
        case True
        with nn f t show ?thesis unfolding Cons by (simp add: 1 starts_from_space)
      next
        case False
        with f t show ?thesis unfolding Cons by (simp add: 1 starts_from_char)
      qed
    qed
  qed
qed

lemma txt_record_None_iff: "(txt_record r = None) = is_blank r"
proof (cases "strip r = []")
  case True
  then show ?thesis by (simp add: txt_record_def strip_eq_Nil_iff [symmetric])
next
  case False
  obtain l ls where "split_on newline (strip r) = l # ls"
    using split_on_not_Nil [of newline "strip r"] by (cases "split_on newline (strip r)") auto
  with False show ?thesis
    by (simp add: txt_record_def txt_address_def Let_def strip_eq_Nil_iff [symmetric])
qed

lemma length_map_filter:
  "length (List.map_filter f xs) = length (filter (\<lambda>x. f x \<noteq> None) xs)"
  by (simp add: List.map_filter_def)

text \<open>
  Claim C7.  The free-text parser emits one record for each paragraph: the number of
  records is the number of maximal runs of non-blank lines of the text, it is also the
  number of non-blank pieces of the split, and a piece yields no record only when it is
  blank, so no paragraph is dropped for a missing field or identity.
\<close>

theorem txt_one_record_per_paragraph:
  "length (parse_txt_content content) = paragraph_count content
   \<and> length (parse_txt_content content)
       = length (filter (\<lambda>r. \<not> is_blank r) (re_split_blank content))
   \<and> (txt_record r = None) = is_blank r"
proof -
  have "length (parse_txt_content content)
      = length (filter (\<lambda>r. \<not> is_blank r) (re_split_blank content))"
    by (simp add: parse_txt_content_def length_map_filter txt_record_None_iff)
  moreover have "\<dots> = paragraph_count content"
    using pieces_starts [of content]
    by (simp add: pieces_from_False [symmetric] paragraph_count_starts_from)
  ultimately show ?thesis by (simp add: txt_record_None_iff)
qed

theorem txt_one_record_per_paragraph_witness:
  "paragraph_count (''Acme Inc.'' @ [newline] @ ''1 Main St'' @ [newline, newline]
       @ '' '' @ [newline] @ ''Jane Doe'' @ [newline]) = 2
   \<and> length (parse_txt_content (''Acme Inc.'' @ [newline] @ ''1 Main St'' @ [newline, newline]
       @ '' '' @ [newline] @ ''Jane Doe'' @ [newline])) = 2"
proof -
  let ?c = "''Acme Inc.'' @ [newline] @ ''1 Main St'' @ [newline, newline]
       @ '' '' @ [newline] @ ''Jane Doe'' @ [newline]"
  have p: "paragraph_count ?c = 2" by code_simp
  from txt_one_record_per_paragraph [of ?c] have "length (parse_txt_content ?c) = paragraph_count ?c"
    by blast
  with p show ?thesis by simp
qed

section \<open>All-or-nothing runs\<close>

lemma check_files_None_iff: "(check_files e files = None) = (\<forall>f \<in> set files. isfile e f)"
  by (induction files) auto

lemma parse_all_ok:
  "\<forall>f \<in> set files. \<not> isl (parse_file e f) \<Longrightarrow>
   parse_all e acc files = Inr (acc @ concat (map (\<lambda>f. projr (parse_file e f)) files))"
proof (induction files arbitrary: acc)
  case Nil
  then show ?case by simp
next
  case (Cons f fs)
  then obtain as where "parse_file e f = Inr as" by (cases "parse_file e f") auto
  with Cons show ?case by simp
qed

lemma parse_all_fails:
  "\<exists>f \<in> set files. isl (parse_file e f) \<Longrightarrow> isl (parse_all e acc files)"
proof (induction files arbitrary: acc)
  case Nil
  then show ?case by simp
next
  case (Cons f fs)
  then show ?case by (cases "parse_file e f") auto
qed

lemma failed_run_fields:
  "stdout (failed_run d) = [] \<and> output_json (failed_run d) = None
   \<and> exit_status (failed_run d) = 1 \<and> stderr (failed_run d) = [d]"
  by (simp add: failed_run_def)

lemma isl_parse_xml_file:
  "isl (parse_xml_file e f) = (et_parse e f = EtParseError \<or> et_parse e f = EtOtherError)"
  by (cases "et_parse e f") (simp_all add: parse_xml_file_def)

lemma readlines_eq_Nil_iff: "(readlines s = []) = (s = [])"
  by (cases s) (auto split: list.splits)

lemma isl_parse_tsv_file:
  "isl (parse_tsv_file e f) = (read_text e f = None \<or> read_text e f = Some [])"
  by (cases "read_text e f")
     (auto simp: parse_tsv_file_def parse_tsv_lines_def readlines_eq_Nil_iff split: list.splits)

lemma isl_parse_txt_file: "isl (parse_txt_file e f) = (read_text e f = None)"
  by (cases "read_text e f") (simp_all add: parse_txt_file_def)

lemma isl_parse_file: "isl (parse_file e f) = fails_to_parse e f"
  by (simp add: parse_file_def fails_to_parse_def Let_def isl_parse_xml_file isl_parse_tsv_file
      isl_parse_txt_file)

lemma parse_args_Nil: "parse_args e [] = ArgsError"
  by (simp add: parse_args_def)

lemma parse_args_plain:
  "argv = a # rest \<Longrightarrow> \<not> list_ex (\<lambda>x. take 1 x = ''-'') argv \<Longrightarrow>
   parse_args e argv = ArgsFiles a rest"
  by (simp add: parse_args_def)

lemma main_files:
  assumes "parse_args e argv = ArgsFiles a rest"
  shows "main e argv =
     (case check_files e (a # rest) of
        Some d \<Rightarrow> failed_run d
      | None \<Rightarrow>
          (case parse_all e [] (a # rest) of
             Inl d \<Rightarrow> failed_run d
           | Inr all_addresses \<Rightarrow> write_output e (sort_addresses all_addresses)))"
  using assms by (simp add: main_def Let_def)

lemma main_files_ok:
  assumes "parse_args e argv = ArgsFiles a rest"
    and "\<forall>x \<in> set (a # rest). isfile e x \<and> \<not> fails_to_parse e x"
  shows "main e argv
     = write_output e (sort_addresses (concat (map (\<lambda>x. projr (parse_file e x)) (a # rest))))"
proof -
  from assms(2) have c: "check_files e (a # rest) = None"
    by (simp only: check_files_None_iff) blast
  from assms(2) have "\<forall>x \<in> set (a # rest). \<not> isl (parse_file e x)"
    by (simp add: isl_parse_file)
  from parse_all_ok [OF this, of "[]"] c main_files [OF assms(1)] show ?thesis
    by (simp del: check_files.simps parse_all.simps)
qed

lemma main_files_bad:
  assumes "parse_args e argv = ArgsFiles a rest"
    and "\<not> (\<forall>x \<in> set (a # rest). isfile e x \<and> \<not> fails_to_parse e x)"
  shows "\<exists>d. main e argv = failed_run d"
proof (cases "check_files e (a # rest)")
  case (Some d)
  with main_files [OF assms(1)] have "main e argv = failed_run d"
    by (simp del: check_files.simps)
  then show ?thesis by blast
next
  case None
  then have "\<forall>x \<in> set (a # rest). isfile e x" by (simp only: check_files_None_iff)
  with assms(2) have "\<exists>x \<in> set (a # rest). isl (parse_file e x)"
    by (auto simp: isl_parse_file)
  from parse_all_fails [OF this, of "[]"] obtain d where "parse_all e [] (a # rest) = Inl d"
    by (cases "parse_all e [] (a # rest)") auto
  with None main_files [OF assms(1)] have "main e argv = failed_run d"
    by (simp del: check_files.simps parse_all.simps)
  then show ?thesis by blast
qed

text \<open>
  Claim C9.  When the argument parser returns the list of files and one of them is not a
  file or fails to parse (malformed markup, an empty tabular file, an unreadable file, an
  unrecognised extension), nothing is printed on the output stream, \<^verbatim>\<open>output.json\<close> is
  not written, a diagnostic is on the error stream and the status is 1.  When every file
  parses, the sorted concatenation of the records of all files is printed, and it is
  written to \<^verbatim>\<open>output.json\<close> with the success line and status 0 when the file can be
  written, while the run ends with status 1 and without the file when it cannot.  A
  command line that the argument parser rejects, the empty one included, ends with status 2
  and no output.  So the JSON document is printed or written only when every file has
  parsed.
\<close>

theorem main_all_or_nothing:
  "(parse_args e argv = ArgsFiles a rest \<longrightarrow>
      (if \<forall>x \<in> set (a # rest). isfile e x \<and> \<not> fails_to_parse e x
       then stdout (main e argv)
              = JsonArray (sort_addresses (concat (map (\<lambda>x. projr (parse_file e x)) (a # rest))))
                # (if write_ok e
                   then [SuccessLine (length (sort_addresses
                           (concat (map (\<lambda>x. projr (parse_file e x)) (a # rest)))))]
                   else [])
          \<and> output_json (main e argv)
              = (if write_ok e
                 then Some (sort_addresses (concat (map (\<lambda>x. projr (parse_file e x)) (a # rest))))
                 else None)
          \<and> exit_status (main e argv) = (if write_ok e then 0 else 1)
       else stdout (main e argv) = [] \<and> output_json (main e argv) = None
          \<and> exit_status (main e argv) = 1 \<and> stderr (main e argv) \<noteq> []))
   \<and> (parse_args e argv = ArgsError \<longrightarrow>
        stdout (main e argv) = [] \<and> output_json (main e argv) = None
        \<and> exit_status (main e argv) = 2 \<and> stderr (main e argv) = [Usage])
   \<and> (parse_args e argv = ArgsHelp \<longrightarrow>
        stdout (main e argv) = [HelpText] \<and> output_json (main e argv) = None
        \<and> exit_status (main e argv) = 0)
   \<and> parse_args e [] = ArgsError
   \<and> ((output_json (main e argv) \<noteq> None \<or> (\<exists>s. JsonArray s \<in> set (stdout (main e argv)))) \<longrightarrow>
        (\<exists>a rest. parse_args e argv = ArgsFiles a rest
           \<and> (\<forall>x \<in> set (a # rest). isfile e x \<and> \<not> fails_to_parse e x)))"
proof -
  have 1: "stdout (main e argv)
              = JsonArray (sort_addresses (concat (map (\<lambda>x. projr (parse_file e x)) (a # rest))))
                # (if write_ok e
                   then [SuccessLine (length (sort_addresses
                           (concat (map (\<lambda>x. projr (parse_file e x)) (a # rest)))))]
                   else [])
          \<and> output_json (main e argv)
              = (if write_ok e
                 then Some (sort_addresses (concat (map (\<lambda>x. projr (parse_file e x)) (a # rest))))
                 else None)
          \<and> exit_status (main e argv) = (if write_ok e then 0 else 1)"
    if "parse_args e argv = ArgsFiles a rest"
      and "\<forall>x \<in> set (a # rest). isfile e x \<and> \<not> fails_to_parse e x"
    using main_files_ok [OF that] by (simp add: write_output_def)
  have 2: "stdout (main e argv) = [] \<and> output_json (main e argv) = None
          \<and> exit_status (main e argv) = 1 \<and> stderr (main e argv) \<noteq> []"
    if "parse_args e argv = ArgsFiles a rest"
      and "\<not> (\<forall>x \<in> set (a # rest). isfile e x \<and> \<not> fails_to_parse e x)" for a rest
    using main_files_bad [OF that] by (auto simp: failed_run_fields)
  have 3: "stdout (main e argv) = [] \<and> output_json (main e argv) = None
        \<and> exit_status (main e argv) = 2 \<and> stderr (main e argv) = [Usage]"
    if "parse_args e argv = ArgsError"
    using that by (simp add: main_def)
  have 4: "stdout (main e argv) = [HelpText] \<and> output_json (main e argv) = None
        \<and> exit_status (main e argv) = 0"
    if "parse_args e argv = ArgsHelp"
    using that by (simp add: main_def)
  have 5: "\<exists>a rest. parse_args e argv = ArgsFiles a rest
           \<and> (\<forall>x \<in> set (a # rest). isfile e x \<and> \<not> fails_to_parse e x)"
    if o: "output_json (main e argv) \<noteq> None \<or> (\<exists>s. JsonArray s \<in> set (stdout (main e argv)))"
  proof (cases "parse_args e argv")
    case ArgsError
    with 3 o show ?thesis by auto
  next
    case ArgsHelp
    with 4 o show ?thesis by auto
  next
    case (ArgsFiles a' rest')
    show ?thesis
    proof (cases "\<forall>x \<in> set (a' # rest'). isfile e x \<and> \<not> fails_to_parse e x")
      case True
      with ArgsFiles show ?thesis by blast
    next
      case False
      with 2 [OF ArgsFiles] o show ?thesis by auto
    qed
  qed
  from 1 2 3 4 5 parse_args_Nil show ?thesis by auto
qed

theorem main_all_or_nothing_witness:
  "parse_args
     \<lparr>isfile = (\<lambda>p. True),
      read_text = (\<lambda>p. if p = ''a.txt'' then Some ''Acme Inc.'' else None),
      et_parse = (\<lambda>p. EtParseError),
      argparse_options = (\<lambda>argv. ArgsError),
      write_ok = True\<rparr> [''a.txt'', ''b.csv''] = ArgsFiles ''a.txt'' [''b.csv'']
   \<and> fails_to_parse
     \<lparr>isfile = (\<lambda>p. True),
      read_text = (\<lambda>p. if p = ''a.txt'' then Some ''Acme Inc.'' else None),
      et_parse = (\<lambda>p. EtParseError),
      argparse_options = (\<lambda>argv. ArgsError),
      write_ok = True\<rparr> ''b.csv''
   \<and> stdout (main
     \<lparr>isfile = (\<lambda>p. True),
      read_text = (\<lambda>p. if p = ''a.txt'' then Some ''Acme Inc.'' else None),
      et_parse = (\<lambda>p. EtParseError),
      argparse_options = (\<lambda>argv. ArgsError),
      write_ok = True\<rparr> [''a.txt'', ''b.csv'']) = []
   \<and> output_json (main
     \<lparr>isfile = (\<lambda>p. True),
      read_text = (\<lambda>p. if p = ''a.txt'' then Some ''Acme Inc.'' else None),
      et_parse = (\<lambda>p. EtParseError),
      argparse_options = (\<lambda>argv. ArgsError),
      write_ok = True\<rparr> [''a.txt'', ''b.csv'']) = None
   \<and> exit_status (main
     \<lparr>isfile = (\<lambda>p. True),
      read_text = (\<lambda>p. if p = ''a.txt'' then Some ''Acme Inc.'' else None),
      et_parse = (\<lambda>p. EtParseError),
      argparse_options = (\<lambda>argv. ArgsError),
      write_ok = True\<rparr> [''a.txt'', ''b.csv'']) = 1
   \<and> output_json (main
     \<lparr>isfile = (\<lambda>p. True),
      read_text = (\<lambda>p. if p = ''a.txt'' then Some ''Acme Inc.'' else None),
      et_parse = (\<lambda>p. EtParseError),
      argparse_options = (\<lambda>argv. ArgsError),
      write_ok = True\<rparr> [''a.txt''])
     = Some [[(''organization'', ''Acme Inc.'')]]
   \<and> exit_status (main
     \<lparr>isfile = (\<lambda>p. True),
      read_text = (\<lambda>p. if p = ''a.txt'' then Some ''Acme Inc.'' else None),
      et_parse = (\<lambda>p. EtParseError),
      argparse_options = (\<lambda>argv. ArgsError),
      write_ok = True\<rparr> []) = 2"
proof -
  let ?e = "\<lparr>isfile = (\<lambda>p. True),
      read_text = (\<lambda>p. if p = ''a.txt'' then Some ''Acme Inc.'' else None),
      et_parse = (\<lambda>p. EtParseError),
      argparse_options = (\<lambda>argv. ArgsError),
      write_ok = True\<rparr>"
  have p2: "parse_args ?e [''a.txt'', ''b.csv''] = ArgsFiles ''a.txt'' [''b.csv'']"
    by (simp add: parse_args_def)
  have p1: "parse_args ?e [''a.txt''] = ArgsFiles ''a.txt'' []"
    by (simp add: parse_args_def)
  have p0: "parse_args ?e [] = ArgsError"
    by (simp add: parse_args_def)
  have f: "fails_to_parse ?e ''b.csv''" by code_simp
  have g: "\<not> fails_to_parse ?e ''a.txt''" by code_simp
  have pa: "parse_file ?e ''a.txt'' = Inr [[(''organization'', ''Acme Inc.'')]]" by code_simp
  have n: "(\<forall>x \<in> set [''a.txt'', ''b.csv'']. isfile ?e x \<and> \<not> fails_to_parse ?e x) = False"
    using f by simp
  have y: "(\<forall>x \<in> set [''a.txt'']. isfile ?e x \<and> \<not> fails_to_parse ?e x) = True"
    using g by simp
  from main_all_or_nothing [of ?e "[''a.txt'', ''b.csv'']" "''a.txt''" "[''b.csv'']"] p2
  have "if \<forall>x \<in> set [''a.txt'', ''b.csv'']. isfile ?e x \<and> \<not> fails_to_parse ?e x
       then stdout (main ?e [''a.txt'', ''b.csv''])
              = JsonArray (sort_addresses (concat (map (\<lambda>x. projr (parse_file ?e x))
                   [''a.txt'', ''b.csv''])))
                # (if write_ok ?e
                   then [SuccessLine (length (sort_addresses
                           (concat (map (\<lambda>x. projr (parse_file ?e x)) [''a.txt'', ''b.csv'']))))]
                   else [])
          \<and> output_json (main ?e [''a.txt'', ''b.csv''])
              = (if write_ok ?e
                 then Some (sort_addresses (concat (map (\<lambda>x. projr (parse_file ?e x))
                        [''a.txt'', ''b.csv''])))
                 else None)
          \<and> exit_status (main ?e [''a.txt'', ''b.csv'']) = (if write_ok ?e then 0 else 1)
       else stdout (main ?e [''a.txt'', ''b.csv'']) = []
          \<and> output_json (main ?e [''a.txt'', ''b.csv'']) = None
          \<and> exit_status (main ?e [''a.txt'', ''b.csv'']) = 1
          \<and> stderr (main ?e [''a.txt'', ''b.csv'']) \<noteq> []"
    by blast
  then have bad: "stdout (main ?e [''a.txt'', ''b.csv'']) = []
      \<and> output_json (main ?e [''a.txt'', ''b.csv'']) = None
      \<and> exit_status (main ?e [''a.txt'', ''b.csv'']) = 1
      \<and> stderr (main ?e [''a.txt'', ''b.csv'']) \<noteq> []"
    unfolding n if_False .
  from main_all_or_nothing [of ?e "[''a.txt'']" "''a.txt''" "[]"] p1
  have "if \<forall>x \<in> set [''a.txt'']. isfile ?e x \<and> \<not> fails_to_parse ?e x
       then stdout (main ?e [''a.txt''])
              = JsonArray (sort_addresses (concat (map (\<lambda>x. projr (parse_file ?e x))
                   [''a.txt''])))
                # (if write_ok ?e
                   then [SuccessLine (length (sort_addresses
                           (concat (map (\<lambda>x. projr (parse_file ?e x)) [''a.txt'']))))]
                   else [])
          \<and> output_json (main ?e [''a.txt''])
              = (if write_ok ?e
                 then Some (sort_addresses (concat (map (\<lambda>x. projr (parse_file ?e x))
                        [''a.txt''])))
                 else None)
          \<and> exit_status (main ?e [''a.txt'']) = (if write_ok ?e then 0 else 1)
       else stdout (main ?e [''a.txt'']) = []
          \<and> output_json (main ?e [''a.txt'']) = None
          \<and> exit_status (main ?e [''a.txt'']) = 1
          \<and> stderr (main ?e [''a.txt'']) \<noteq> []"
    by blast
  then have "output_json (main ?e [''a.txt''])
              = (if write_ok ?e
                 then Some (sort_addresses (concat (map (\<lambda>x. projr (parse_file ?e x))
                        [''a.txt''])))
                 else None)"
    unfolding y if_True by blast
  then have good: "output_json (main ?e [''a.txt''])
      = Some [[(''organization'', ''Acme Inc.'')]]"
    by (simp add: pa sort_addresses_def)
  from main_all_or_nothing [of ?e "[]"] p0
  have none: "exit_status (main ?e []) = 2" by blast
  from p2 f bad good none show ?thesis by blast
qed

end
